theory Spec2Isabelle
  imports Main
begin

section \<open>Data model of \<^verbatim>\<open>vector.h\<close>\<close>

text \<open>
  A slot of a buffer obtained from \<^verbatim>\<open>operator new\<close> either holds no object (\<open>Raw\<close>) or
  holds a constructed element (\<open>Live x\<close>). Placement new turns a slot into \<open>Live\<close>, a
  destructor call turns it back into \<open>Raw\<close>.
\<close>

datatype 'a slot = Raw | Live 'a

text \<open>
  What leaves a member function other than by \<^verbatim>\<open>return\<close>: \<^verbatim>\<open>operator new\<close> threw, an
  operation of the element type threw, or an \<^verbatim>\<open>assert\<close> failed.
\<close>

datatype exn = BadAlloc | ElemThrow | AssertFailed

text \<open>
  Two actions of the source have no defined meaning in C++ and no effect on the modelled
  memory; the model records them in the order they happen. \<open>DestroyAt i\<close>: a destructor
  was run on slot \<open>i\<close> of the vector's buffer although that slot holds no object or lies
  past the buffer. \<open>OperatorDelete i\<close>: \<^verbatim>\<open>operator delete\<close> was called on the address of
  slot \<open>i\<close> of the vector's buffer while the vector goes on using the buffer.
\<close>

datatype misuse = DestroyAt nat | OperatorDelete nat

text \<open>
  \<^verbatim>\<open>class RawMemory\<close>: the fields \<^verbatim>\<open>buffer_\<close> and \<^verbatim>\<open>capacity_\<close>. The pointer is modelled
  by the block it points to; \<^verbatim>\<open>nullptr\<close> is the empty block.
\<close>

record 'a RawMemory =
  m_buffer :: "'a slot list"
  m_capacity :: nat

text \<open>
  \<^verbatim>\<open>class Vector\<close>: the fields \<^verbatim>\<open>data_\<close> and \<^verbatim>\<open>size_\<close>, and the record of misuse
  committed by member functions called on this object.
\<close>

record 'a Vector =
  m_data :: "'a RawMemory"
  m_size :: nat
  m_misuse :: "misuse list"

text \<open>
  The template parameter \<^verbatim>\<open>T\<close> and the allocator, as far as the container depends on
  them: which values make a copy or move operation throw, the state a move leaves its
  source in, the outcome of value-initialisation (\<open>None\<close>: the default constructor
  throws), the two type traits tested by \<^verbatim>\<open>if constexpr\<close>, and the requests
  \<^verbatim>\<open>operator new\<close> refuses (as numbers of elements).
  A copy or move yields the value of its source. \<^verbatim>\<open>size_t\<close> is \<open>nat\<close>: the one product
  the source computes, \<^verbatim>\<open>size_ * 2\<close>, doubles a number of live elements.
\<close>

record 'a elem_type =
  copy_ctor_throws :: "'a \<Rightarrow> bool"
  copy_assign_throws :: "'a \<Rightarrow> bool"
  move_ctor_throws :: "'a \<Rightarrow> bool"
  move_assign_throws :: "'a \<Rightarrow> bool"
  moved_from :: "'a \<Rightarrow> 'a"
  value_init :: "'a option"
  nothrow_move_constructible :: bool
  copy_constructible :: bool
  alloc_fails :: "nat \<Rightarrow> bool"

section \<open>RawMemory\<close>

definition Allocate :: "'a elem_type \<Rightarrow> nat \<Rightarrow> exn + 'a slot list" where
  "Allocate T n =
     (if n \<noteq> 0 then (if alloc_fails T n then Inl BadAlloc else Inr (replicate n Raw))
      else Inr [])"

definition RawMemory_default :: "'a RawMemory" where
  "RawMemory_default = \<lparr>m_buffer = [], m_capacity = 0\<rparr>"

definition RawMemory_new :: "'a elem_type \<Rightarrow> nat \<Rightarrow> exn + 'a RawMemory" where
  "RawMemory_new T capacity =
     (case Allocate T capacity of
        Inl e \<Rightarrow> Inl e
      | Inr b \<Rightarrow> Inr \<lparr>m_buffer = b, m_capacity = capacity\<rparr>)"

text \<open>\<^verbatim>\<open>RawMemory::Swap\<close> on two distinct objects: (this, other) after the call.\<close>

definition RawMemory_Swap :: "'a RawMemory \<Rightarrow> 'a RawMemory \<Rightarrow> 'a RawMemory \<times> 'a RawMemory" where
  "RawMemory_Swap m other =
     (m\<lparr>m_buffer := m_buffer other, m_capacity := m_capacity other\<rparr>,
      other\<lparr>m_buffer := m_buffer m, m_capacity := m_capacity m\<rparr>)"

section \<open>Lifetime of elements\<close>

text \<open>
  \<^verbatim>\<open>std::destroy_at(buf + i)\<close> and \<^verbatim>\<open>std::destroy_n(buf + i, n)\<close> on a buffer and the
  misuse record that goes with it.
\<close>

definition destroy_at :: "nat \<Rightarrow> 'a slot list \<times> misuse list \<Rightarrow> 'a slot list \<times> misuse list" where
  "destroy_at i st =
     (case st of (buf, ms) \<Rightarrow>
        if i < length buf \<and> buf ! i \<noteq> Raw then (buf[i := Raw], ms)
        else (buf, ms @ [DestroyAt i]))"

fun destroy_n :: "nat \<Rightarrow> nat \<Rightarrow> 'a slot list \<times> misuse list \<Rightarrow> 'a slot list \<times> misuse list" where
  "destroy_n i 0 st = st"
| "destroy_n i (Suc n) st = destroy_n (Suc i) n (destroy_at i st)"

text \<open>
  Reading the object in a slot. Every read of the source is at an index below \<^verbatim>\<open>size_\<close>,
  and such a slot holds an object in every state the container can reach (\<open>live_prefix\<close>
  below is an invariant); elsewhere a read of a slot that holds none, or past the buffer,
  yields \<open>Raw\<close>.
\<close>

definition slot_at :: "'a slot list \<Rightarrow> nat \<Rightarrow> 'a slot" where
  "slot_at buf i = (if i < length buf then buf ! i else Raw)"

text \<open>
  The four element operations the container calls. A constructor yields the new object;
  a move also yields the state of its source afterwards. A throwing operation leaves its
  source (and the target of an assignment) as it was.
\<close>

definition copy_construct :: "'a elem_type \<Rightarrow> 'a slot \<Rightarrow> exn + 'a slot" where
  "copy_construct T s =
     (case s of
        Raw \<Rightarrow> Inr Raw
      | Live x \<Rightarrow> if copy_ctor_throws T x then Inl ElemThrow else Inr (Live x))"

definition copy_assign :: "'a elem_type \<Rightarrow> 'a slot \<Rightarrow> exn + 'a slot" where
  "copy_assign T s =
     (case s of
        Raw \<Rightarrow> Inr Raw
      | Live x \<Rightarrow> if copy_assign_throws T x then Inl ElemThrow else Inr (Live x))"

definition move_construct :: "'a elem_type \<Rightarrow> 'a slot \<Rightarrow> exn + 'a slot \<times> 'a slot" where
  "move_construct T s =
     (case s of
        Raw \<Rightarrow> Inr (Raw, Raw)
      | Live x \<Rightarrow> if move_ctor_throws T x then Inl ElemThrow
                  else Inr (Live x, Live (moved_from T x)))"

definition move_assign :: "'a elem_type \<Rightarrow> 'a slot \<Rightarrow> exn + 'a slot \<times> 'a slot" where
  "move_assign T s =
     (case s of
        Raw \<Rightarrow> Inr (Raw, Raw)
      | Live x \<Rightarrow> if move_assign_throws T x then Inl ElemThrow
                  else Inr (Live x, Live (moved_from T x)))"

text \<open>
  \<^verbatim>\<open>std::uninitialized_copy_n(src + i, n, dst + j)\<close>. When a copy throws, the objects
  already constructed in \<open>dst\<close> are destroyed and the exception leaves with \<open>dst\<close> in
  that state.
\<close>

fun uninitialized_copy_n ::
  "'a elem_type \<Rightarrow> 'a slot list \<Rightarrow> nat \<Rightarrow> nat \<Rightarrow> 'a slot list \<Rightarrow> nat
     \<Rightarrow> exn \<times> 'a slot list + 'a slot list" where
  "uninitialized_copy_n T src i 0 dst j = Inr dst"
| "uninitialized_copy_n T src i (Suc n) dst j =
     (case copy_construct T (slot_at src i) of
        Inl e \<Rightarrow> Inl (e, dst)
      | Inr s \<Rightarrow>
          (case uninitialized_copy_n T src (Suc i) n (dst[j := s]) (Suc j) of
             Inl (e, d) \<Rightarrow> Inl (e, d[j := Raw])
           | Inr d \<Rightarrow> Inr d))"

text \<open>
  \<^verbatim>\<open>std::uninitialized_move_n(src + i, n, dst + j)\<close>: as above, and the sources already
  moved from stay moved from. The result is (\<open>src\<close>, \<open>dst\<close>) after the call.
\<close>

fun uninitialized_move_n ::
  "'a elem_type \<Rightarrow> 'a slot list \<Rightarrow> nat \<Rightarrow> nat \<Rightarrow> 'a slot list \<Rightarrow> nat
     \<Rightarrow> exn \<times> 'a slot list \<times> 'a slot list + 'a slot list \<times> 'a slot list" where
  "uninitialized_move_n T src i 0 dst j = Inr (src, dst)"
| "uninitialized_move_n T src i (Suc n) dst j =
     (case move_construct T (slot_at src i) of
        Inl e \<Rightarrow> Inl (e, src, dst)
      | Inr (s, s') \<Rightarrow>
          (case uninitialized_move_n T (src[i := s']) (Suc i) n (dst[j := s]) (Suc j) of
             Inl (e, src', d) \<Rightarrow> Inl (e, src', d[j := Raw])
           | Inr r \<Rightarrow> Inr r))"

text \<open>
  \<^verbatim>\<open>std::uninitialized_value_construct_n(buf + j, n)\<close>, with the same rollback.
\<close>

fun uninitialized_value_construct_n ::
  "'a elem_type \<Rightarrow> nat \<Rightarrow> nat \<Rightarrow> 'a slot list \<Rightarrow> exn \<times> 'a slot list + 'a slot list" where
  "uninitialized_value_construct_n T j 0 buf = Inr buf"
| "uninitialized_value_construct_n T j (Suc n) buf =
     (case value_init T of
        None \<Rightarrow> Inl (ElemThrow, buf)
      | Some x \<Rightarrow>
          (case uninitialized_value_construct_n T (Suc j) n (buf[j := Live x]) of
             Inl (e, b) \<Rightarrow> Inl (e, b[j := Raw])
           | Inr b \<Rightarrow> Inr b))"

text \<open>
  \<^verbatim>\<open>std::copy_n(src + i, n, dst + j)\<close>: copy assignment, element by element; what was
  assigned before a throw stays assigned.
\<close>

fun copy_n ::
  "'a elem_type \<Rightarrow> 'a slot list \<Rightarrow> nat \<Rightarrow> nat \<Rightarrow> 'a slot list \<Rightarrow> nat
     \<Rightarrow> exn \<times> 'a slot list + 'a slot list" where
  "copy_n T src i 0 dst j = Inr dst"
| "copy_n T src i (Suc n) dst j =
     (case copy_assign T (slot_at src i) of
        Inl e \<Rightarrow> Inl (e, dst)
      | Inr s \<Rightarrow> copy_n T src (Suc i) n (dst[j := s]) (Suc j))"

text \<open>
  \<^verbatim>\<open>std::move(buf + first, buf + first + n, buf + d_first)\<close> inside one buffer: move
  assignment front to back.
\<close>

fun std_move ::
  "'a elem_type \<Rightarrow> nat \<Rightarrow> nat \<Rightarrow> nat \<Rightarrow> 'a slot list \<Rightarrow> exn \<times> 'a slot list + 'a slot list" where
  "std_move T first 0 d_first buf = Inr buf"
| "std_move T first (Suc n) d_first buf =
     (case move_assign T (slot_at buf first) of
        Inl e \<Rightarrow> Inl (e, buf)
      | Inr (s, s') \<Rightarrow> std_move T (Suc first) n (Suc d_first) (buf[first := s', d_first := s]))"

text \<open>
  \<^verbatim>\<open>std::move_backward(buf + first, buf + first + n, buf + d_last)\<close> inside one buffer:
  move assignment back to front, \<^verbatim>\<open>*(--d_last) = std::move(*(--last))\<close>.
\<close>

fun move_backward ::
  "'a elem_type \<Rightarrow> nat \<Rightarrow> nat \<Rightarrow> nat \<Rightarrow> 'a slot list \<Rightarrow> exn \<times> 'a slot list + 'a slot list" where
  "move_backward T first 0 d_last buf = Inr buf"
| "move_backward T first (Suc n) d_last buf =
     (case move_assign T (slot_at buf (first + n)) of
        Inl e \<Rightarrow> Inl (e, buf)
      | Inr (s, s') \<Rightarrow>
          move_backward T first n (d_last - 1) (buf[first + n := s', d_last - 1 := s]))"

section \<open>Vector\<close>

definition Vector_default :: "'a Vector" where
  "Vector_default = \<lparr>m_data = RawMemory_default, m_size = 0, m_misuse = []\<rparr>"

definition Size :: "'a Vector \<Rightarrow> nat" where
  "Size v = m_size v"

definition Capacity :: "'a Vector \<Rightarrow> nat" where
  "Capacity v = m_capacity (m_data v)"

text \<open>The contents of the slots \<open>[0, size)\<close>, which \<^verbatim>\<open>begin()\<close> .. \<^verbatim>\<open>end()\<close> ranges over.\<close>

definition elems :: "'a Vector \<Rightarrow> 'a slot list" where
  "elems v = take (m_size v) (m_buffer (m_data v))"

text \<open>A destructor call of a member function on the vector's own buffer.\<close>

definition destroy_own :: "nat \<Rightarrow> nat \<Rightarrow> 'a Vector \<Rightarrow> 'a Vector" where
  "destroy_own i n v =
     (case destroy_n i n (m_buffer (m_data v), m_misuse v) of
        (buf, ms) \<Rightarrow> v\<lparr>m_data := (m_data v)\<lparr>m_buffer := buf\<rparr>, m_misuse := ms\<rparr>)"

text \<open>\<^verbatim>\<open>Vector::Swap\<close> on two distinct objects: (this, other) after the call.\<close>

definition Swap :: "'a Vector \<Rightarrow> 'a Vector \<Rightarrow> 'a Vector \<times> 'a Vector" where
  "Swap v other =
     (case RawMemory_Swap (m_data v) (m_data other) of
        (d, d') \<Rightarrow> (v\<lparr>m_size := m_size other, m_data := d\<rparr>,
                    other\<lparr>m_size := m_size v, m_data := d'\<rparr>))"

text \<open>
  \<^verbatim>\<open>Vector(Vector&& other) noexcept\<close>: the new object starts from the default member
  initialisers and swaps with \<open>other\<close>. The result is (new object, other).
\<close>

definition Vector_move :: "'a Vector \<Rightarrow> 'a Vector \<times> 'a Vector" where
  "Vector_move other = Swap Vector_default other"

text \<open>
  \<^verbatim>\<open>PopBack\<close>: the argument of \<^verbatim>\<open>std::destroy_at\<close> is \<^verbatim>\<open>data_.GetAddress() + size_--\<close>; the
  post-decrement yields the old size.
\<close>

definition PopBack :: "'a Vector \<Rightarrow> 'a Vector" where
  "PopBack v =
     (if m_size v < 1 then v
      else let i = m_size v; v1 = v\<lparr>m_size := m_size v - 1\<rparr>
           in destroy_own i 1 v1)"

text \<open>The vector with the contents of its buffer replaced.\<close>

definition with_buffer :: "'a slot list \<Rightarrow> 'a Vector \<Rightarrow> 'a Vector" where
  "with_buffer b v = v\<lparr>m_data := (m_data v)\<lparr>m_buffer := b\<rparr>\<rparr>"

text \<open>
  The end of every growth path: \<^verbatim>\<open>std::destroy_n(data_.GetAddress(), size_);
  data_.Swap(new_data);\<close>, after which the destructor of \<^verbatim>\<open>new_data\<close> releases the old
  block. \<open>old\<close> is the old block as the transfer left it.
\<close>

definition adopt :: "'a slot list \<Rightarrow> 'a RawMemory \<Rightarrow> 'a Vector \<Rightarrow> 'a Vector" where
  "adopt old new_data v =
     (case destroy_n 0 (m_size v) (old, m_misuse v) of
        (_, ms) \<Rightarrow> v\<lparr>m_data := fst (RawMemory_Swap (m_data v) new_data), m_misuse := ms\<rparr>)"

text \<open>\<^verbatim>\<open>explicit Vector(size_t size)\<close>.\<close>

definition Vector_sized :: "'a elem_type \<Rightarrow> nat \<Rightarrow> exn + 'a Vector" where
  "Vector_sized T n =
     (case RawMemory_new T n of
        Inl e \<Rightarrow> Inl e
      | Inr d \<Rightarrow>
          (case uninitialized_value_construct_n T 0 n (m_buffer d) of
             Inl (e, _) \<Rightarrow> Inl e
           | Inr b \<Rightarrow> Inr \<lparr>m_data = d\<lparr>m_buffer := b\<rparr>, m_size = n, m_misuse = []\<rparr>))"

text \<open>\<^verbatim>\<open>Vector(const Vector& other)\<close>.\<close>

definition Vector_copy :: "'a elem_type \<Rightarrow> 'a Vector \<Rightarrow> exn + 'a Vector" where
  "Vector_copy T other =
     (case RawMemory_new T (m_size other) of
        Inl e \<Rightarrow> Inl e
      | Inr d \<Rightarrow>
          (case uninitialized_copy_n T (m_buffer (m_data other)) 0 (m_size other) (m_buffer d) 0 of
             Inl (e, _) \<Rightarrow> Inl e
           | Inr b \<Rightarrow> Inr \<lparr>m_data = d\<lparr>m_buffer := b\<rparr>, m_size = m_size other, m_misuse = []\<rparr>))"

text \<open>
  \<^verbatim>\<open>Reserve\<close>. A result \<open>Inl (e, v')\<close> is the exception \<open>e\<close> leaving the call with the
  vector in state \<open>v'\<close>; \<open>Inr v'\<close> is a normal return.
\<close>

definition Reserve :: "'a elem_type \<Rightarrow> nat \<Rightarrow> 'a Vector \<Rightarrow> exn \<times> 'a Vector + 'a Vector" where
  "Reserve T new_capacity v =
     (if new_capacity \<le> Capacity v then Inr v
      else case RawMemory_new T new_capacity of
        Inl e \<Rightarrow> Inl (e, v)
      | Inr new_data \<Rightarrow>
          if nothrow_move_constructible T \<or> \<not> copy_constructible T then
            (case uninitialized_move_n T (m_buffer (m_data v)) 0 (m_size v) (m_buffer new_data) 0 of
               Inl (e, src, _) \<Rightarrow> Inl (e, with_buffer src v)
             | Inr (src, b) \<Rightarrow> Inr (adopt src (new_data\<lparr>m_buffer := b\<rparr>) v))
          else
            (case uninitialized_copy_n T (m_buffer (m_data v)) 0 (m_size v) (m_buffer new_data) 0 of
               Inl (e, _) \<Rightarrow> Inl (e, v)
             | Inr b \<Rightarrow> Inr (adopt (m_buffer (m_data v)) (new_data\<lparr>m_buffer := b\<rparr>) v)))"

text \<open>\<^verbatim>\<open>Resize\<close>; \<^verbatim>\<open>std::swap(size_, new_size)\<close> stores the new size.\<close>

definition Resize :: "'a elem_type \<Rightarrow> nat \<Rightarrow> 'a Vector \<Rightarrow> exn \<times> 'a Vector + 'a Vector" where
  "Resize T new_size v =
     (if new_size = m_size v then Inr v
      else if new_size < m_size v then
        Inr ((destroy_own new_size (m_size v - new_size) v)\<lparr>m_size := new_size\<rparr>)
      else case Reserve T new_size v of
        Inl r \<Rightarrow> Inl r
      | Inr v1 \<Rightarrow>
          (case uninitialized_value_construct_n T (m_size v1) (new_size - m_size v1)
                  (m_buffer (m_data v1)) of
             Inl (e, b) \<Rightarrow> Inl (e, with_buffer b v1)
           | Inr b \<Rightarrow> Inr ((with_buffer b v1)\<lparr>m_size := new_size\<rparr>)))"

text \<open>
  \<^verbatim>\<open>EmplaceBack\<close>. \<open>ctor\<close> is the outcome of \<^verbatim>\<open>T(std::forward<Args>(args)...)\<close>: the
  object constructed, or \<open>None\<close> when that constructor throws. \<^verbatim>\<open>data_ + size_\<close> and
  \<^verbatim>\<open>new_data + size_\<close> go through \<^verbatim>\<open>RawMemory::operator+\<close>, which asserts
  \<^verbatim>\<open>offset <= capacity_\<close>.
\<close>

definition EmplaceBack :: "'a elem_type \<Rightarrow> 'a option \<Rightarrow> 'a Vector \<Rightarrow> exn \<times> 'a Vector + 'a Vector" where
  "EmplaceBack T ctor v =
     (if m_size v \<noteq> Capacity v then
        (if \<not> m_size v \<le> m_capacity (m_data v) then Inl (AssertFailed, v)
         else
           (case ctor of
              None \<Rightarrow> Inl (ElemThrow, v)
            | Some x \<Rightarrow>
                Inr ((with_buffer ((m_buffer (m_data v))[m_size v := Live x]) v)
                       \<lparr>m_size := m_size v + 1\<rparr>)))
      else
        (case RawMemory_new T (if m_size v = 0 then 1 else m_size v * 2) of
           Inl e \<Rightarrow> Inl (e, v)
         | Inr new_data \<Rightarrow>
             (if \<not> m_size v \<le> m_capacity new_data then Inl (AssertFailed, v)
              else
                (case ctor of
                   None \<Rightarrow> Inl (ElemThrow, v)
                 | Some x \<Rightarrow>
                     (let nb = (m_buffer new_data)[m_size v := Live x] in
                      (if \<not> nothrow_move_constructible T \<and> copy_constructible T then
                         (case uninitialized_copy_n T (m_buffer (m_data v)) 0 (m_size v) nb 0 of
                            Inl (e, _) \<Rightarrow> Inl (e, v)
                          | Inr b \<Rightarrow>
                              Inr ((adopt (m_buffer (m_data v)) (new_data\<lparr>m_buffer := b\<rparr>) v)
                                     \<lparr>m_size := m_size v + 1\<rparr>))
                       else
                         (case uninitialized_move_n T (m_buffer (m_data v)) 0 (m_size v) nb 0 of
                            Inl (e, src, _) \<Rightarrow> Inl (e, with_buffer src v)
                          | Inr (src, b) \<Rightarrow>
                              Inr ((adopt src (new_data\<lparr>m_buffer := b\<rparr>) v)
                                     \<lparr>m_size := m_size v + 1\<rparr>))))))))"



text \<open>
  The \<^verbatim>\<open>try\<close> block of \<^verbatim>\<open>Emplace\<close>, entered when \<^verbatim>\<open>data_.Capacity() > size_\<close>.
  \<^verbatim>\<open>pos != end()\<close> is \<open>index \<noteq> size\<close>. \<^verbatim>\<open>std::forward<T>\<close> of an lvalue of type
  \<^verbatim>\<open>T\<close> is an rvalue, so the trailing slot is move-constructed from the last element
  and \<^verbatim>\<open>new_s\<close> is move-assigned into its place.
\<close>

definition Emplace_try :: "'a elem_type \<Rightarrow> nat \<Rightarrow> 'a option \<Rightarrow> 'a Vector \<Rightarrow> exn \<times> 'a Vector + 'a Vector" where
  "Emplace_try T index ctor v =
     (let buf = m_buffer (m_data v); n = m_size v in
      if index \<noteq> n then
        (case ctor of
           None \<Rightarrow> Inl (ElemThrow, v)
         | Some new_s \<Rightarrow>
             (case move_construct T (slot_at buf (n - 1)) of
                Inl e \<Rightarrow> Inl (e, v)
              | Inr (s, s') \<Rightarrow>
                  (case move_backward T index (n - 1 - index) n (buf[n - 1 := s', n := s]) of
                     Inl (e, b) \<Rightarrow> Inl (e, with_buffer b v)
                   | Inr b \<Rightarrow>
                       (case move_assign T (Live new_s) of
                          Inl e \<Rightarrow> Inl (e, with_buffer b v)
                        | Inr (s, _) \<Rightarrow> Inr (with_buffer (b[index := s]) v)))))
      else
        (case ctor of
           None \<Rightarrow> Inl (ElemThrow, v)
         | Some x \<Rightarrow> Inr (with_buffer (buf[n := Live x]) v)))"

text \<open>
  The handler \<^verbatim>\<open>catch (...) { operator delete (end()); throw; }\<close>: no destructor is
  called and nothing is written to the buffer; \<^verbatim>\<open>operator delete\<close> receives the address
  of slot \<^verbatim>\<open>size_\<close>.
\<close>

definition Emplace_catch :: "'a Vector \<Rightarrow> 'a Vector" where
  "Emplace_catch v = v\<lparr>m_misuse := m_misuse v @ [OperatorDelete (m_size v)]\<rparr>"

text \<open>
  \<^verbatim>\<open>Emplace\<close>, with the position given as \<^verbatim>\<open>index = pos - begin()\<close>; the iterator
  returned is \<^verbatim>\<open>begin() + index\<close>. The growth path has no handler: an exception of a
  transfer leaves with the new block released and the objects in it not destroyed.
\<close>

definition Emplace :: "'a elem_type \<Rightarrow> nat \<Rightarrow> 'a option \<Rightarrow> 'a Vector \<Rightarrow> exn \<times> 'a Vector + 'a Vector" where
  "Emplace T index ctor v =
     (if \<not> index \<le> m_size v then Inl (AssertFailed, v)
      else if Capacity v > m_size v then
        (case Emplace_try T index ctor v of
           Inl (e, v') \<Rightarrow> Inl (e, Emplace_catch v')
         | Inr v' \<Rightarrow> Inr (v'\<lparr>m_size := m_size v' + 1\<rparr>))
      else case RawMemory_new T (if m_size v = 0 then 1 else m_size v * 2) of
        Inl e \<Rightarrow> Inl (e, v)
      | Inr new_data \<Rightarrow>
          (case ctor of
             None \<Rightarrow> Inl (ElemThrow, v)
           | Some x \<Rightarrow>
               let nb = (m_buffer new_data)[index := Live x]; buf = m_buffer (m_data v) in
               if \<not> nothrow_move_constructible T \<and> copy_constructible T then
                 (case uninitialized_copy_n T buf 0 index nb 0 of
                    Inl (e, _) \<Rightarrow> Inl (e, v)
                  | Inr b1 \<Rightarrow>
                      (case uninitialized_copy_n T buf index (m_size v - index) b1 (index + 1) of
                         Inl (e, _) \<Rightarrow> Inl (e, v)
                       | Inr b2 \<Rightarrow>
                           Inr ((adopt buf (new_data\<lparr>m_buffer := b2\<rparr>) v)
                                  \<lparr>m_size := m_size v + 1\<rparr>)))
               else
                 (case uninitialized_move_n T buf 0 index nb 0 of
                    Inl (e, src, _) \<Rightarrow> Inl (e, with_buffer src v)
                  | Inr (src1, b1) \<Rightarrow>
                      (case uninitialized_move_n T src1 index (m_size v - index) b1 (index + 1) of
                         Inl (e, src, _) \<Rightarrow> Inl (e, with_buffer src v)
                       | Inr (src2, b2) \<Rightarrow>
                           Inr ((adopt src2 (new_data\<lparr>m_buffer := b2\<rparr>) v)
                                  \<lparr>m_size := m_size v + 1\<rparr>)))))"

text \<open>\<^verbatim>\<open>Insert(pos, const T& value)\<close> and \<^verbatim>\<open>Insert(pos, T&& value)\<close>.\<close>

definition Insert :: "'a elem_type \<Rightarrow> nat \<Rightarrow> 'a \<Rightarrow> 'a Vector \<Rightarrow> exn \<times> 'a Vector + 'a Vector" where
  "Insert T index value v =
     Emplace T index (if copy_ctor_throws T value then None else Some value) v"


text \<open>\<^verbatim>\<open>Erase\<close>, with the position given as \<^verbatim>\<open>shift = pos - begin()\<close>.\<close>

definition Erase :: "'a elem_type \<Rightarrow> nat \<Rightarrow> 'a Vector \<Rightarrow> exn \<times> 'a Vector + 'a Vector" where
  "Erase T shift v =
     (if \<not> shift < m_size v then Inl (AssertFailed, v)
      else case std_move T (shift + 1) (m_size v - (shift + 1)) shift (m_buffer (m_data v)) of
        Inl (e, b) \<Rightarrow> Inl (e, with_buffer b v)
      | Inr b \<Rightarrow> Inr (PopBack (with_buffer b v)))"

text \<open>
  The body of \<^verbatim>\<open>operator=(const Vector& rhs)\<close> under \<^verbatim>\<open>this != &rhs\<close>. On the
  copy-and-swap path the temporary \<^verbatim>\<open>rhs_copy\<close> takes the old contents and is destroyed.
\<close>

definition assign_copy_body :: "'a elem_type \<Rightarrow> 'a Vector \<Rightarrow> 'a Vector \<Rightarrow> exn \<times> 'a Vector + 'a Vector" where
  "assign_copy_body T v rhs =
     (if m_size rhs > Capacity v then
        (case Vector_copy T rhs of
           Inl e \<Rightarrow> Inl (e, v)
         | Inr rhs_copy \<Rightarrow> Inr (fst (Swap v rhs_copy)))
      else if m_size rhs < m_size v then
        (case copy_n T (m_buffer (m_data rhs)) 0 (m_size rhs) (m_buffer (m_data v)) 0 of
           Inl (e, b) \<Rightarrow> Inl (e, with_buffer b v)
         | Inr b \<Rightarrow>
             Inr ((destroy_own (m_size rhs) (m_size v - m_size rhs) (with_buffer b v))
                    \<lparr>m_size := m_size rhs\<rparr>))
      else
        (case copy_n T (m_buffer (m_data rhs)) 0 (m_size v) (m_buffer (m_data v)) 0 of
           Inl (e, b) \<Rightarrow> Inl (e, with_buffer b v)
         | Inr b \<Rightarrow>
             (case uninitialized_copy_n T (m_buffer (m_data rhs)) (m_size v)
                     (m_size rhs - m_size v) b (m_size v) of
                Inl (e, b') \<Rightarrow> Inl (e, with_buffer b' v)
              | Inr b' \<Rightarrow> Inr ((with_buffer b' v)\<lparr>m_size := m_size rhs\<rparr>))))"

text \<open>
  The assignment operators compare the addresses of their operands, so they are modelled
  on a store of Vector objects: \<open>this\<close> and \<open>rhs\<close> are addresses, and equal addresses are
  the same object.
\<close>

type_synonym 'a store = "nat \<Rightarrow> 'a Vector"

definition assign_copy :: "'a elem_type \<Rightarrow> nat \<Rightarrow> nat \<Rightarrow> 'a store \<Rightarrow> exn \<times> 'a store + 'a store" where
  "assign_copy T this rhs s =
     (if this \<noteq> rhs then
        (case assign_copy_body T (s this) (s rhs) of
           Inl (e, v) \<Rightarrow> Inl (e, s(this := v))
         | Inr v \<Rightarrow> Inr (s(this := v)))
      else Inr s)"

definition assign_move :: "nat \<Rightarrow> nat \<Rightarrow> 'a store \<Rightarrow> 'a store" where
  "assign_move this rhs s =
     (if this = rhs then s
      else case Swap (s this) (s rhs) of (v, r) \<Rightarrow> s(this := v, rhs := r))"

section \<open>Invariants and example element types\<close>

text \<open>
  The storage invariant of \<^verbatim>\<open>RawMemory\<close> and \<^verbatim>\<open>Vector\<close>: the block has \<^verbatim>\<open>capacity_\<close>
  slots, and \<^verbatim>\<open>size_\<close> does not exceed it.
\<close>

definition wf :: "'a Vector \<Rightarrow> bool" where
  "wf v \<longleftrightarrow> length (m_buffer (m_data v)) = m_capacity (m_data v) \<and> m_size v \<le> m_capacity (m_data v)"


text \<open>
  \<^verbatim>\<open>T = int\<close> with an allocator that never fails: nothing throws, a moved-from
  \<^verbatim>\<open>int\<close> keeps its value, value-initialisation gives 0.
\<close>

definition T_int :: "int elem_type" where
  "T_int = \<lparr>copy_ctor_throws = (\<lambda>_. False), copy_assign_throws = (\<lambda>_. False),
            move_ctor_throws = (\<lambda>_. False), move_assign_throws = (\<lambda>_. False),
            moved_from = (\<lambda>x. x), value_init = Some 0,
            nothrow_move_constructible = True, copy_constructible = True,
            alloc_fails = (\<lambda>_. False)\<rparr>"

text \<open>
  An element type wrapping an \<^verbatim>\<open>int\<close> whose copy constructor, copy assignment and move
  assignment throw on a negative value, whose move constructor is not \<^verbatim>\<open>noexcept\<close>, and
  whose moved-from state is 0. Growth transfers such elements by copy.
\<close>

definition T_fragile :: "int elem_type" where
  "T_fragile = \<lparr>copy_ctor_throws = (\<lambda>x. x < 0), copy_assign_throws = (\<lambda>x. x < 0),
                move_ctor_throws = (\<lambda>_. False), move_assign_throws = (\<lambda>x. x < 0),
                moved_from = (\<lambda>_. 0), value_init = Some 0,
                nothrow_move_constructible = False, copy_constructible = True,
                alloc_fails = (\<lambda>_. False)\<rparr>"

text \<open>
  The invariant of the design: on top of \<open>wf\<close>, every slot below \<^verbatim>\<open>size_\<close> holds an
  object.
\<close>

definition live_upto :: "nat \<Rightarrow> 'a slot list \<Rightarrow> bool" where
  "live_upto k buf \<longleftrightarrow> k \<le> length buf \<and> (\<forall>m<k. buf ! m \<noteq> Raw)"

definition live_prefix :: "'a Vector \<Rightarrow> bool" where
  "live_prefix v \<longleftrightarrow> wf v \<and> live_upto (m_size v) (m_buffer (m_data v))"



definition after :: "exn \<times> 'a Vector + 'a Vector \<Rightarrow> 'a Vector" where
  "after r = (case r of Inl (e, v') \<Rightarrow> v' | Inr v' \<Rightarrow> v')"

text \<open>Example vectors, and stores holding one of them at address 0 and empty vectors elsewhere.\<close>

definition V12 :: "int Vector" where
  "V12 = \<lparr>m_data = \<lparr>m_buffer = [Live 1, Live 2], m_capacity = 2\<rparr>, m_size = 2, m_misuse = []\<rparr>"

definition V1n2 :: "int Vector" where
  "V1n2 = \<lparr>m_data = \<lparr>m_buffer = [Live 1, Live (- 2)], m_capacity = 2\<rparr>, m_size = 2, m_misuse = []\<rparr>"

definition two_vectors :: "int store" where
  "two_vectors = (\<lambda>a. if a = 0 then V12 else Vector_default)"

definition two_fragile_vectors :: "int store" where
  "two_fragile_vectors = (\<lambda>a. if a = 0 then V1n2 else Vector_default)"

section \<open>The transfer loops\<close>

lemma RawMemory_new_Inr:
  "RawMemory_new T c = Inr nd \<Longrightarrow> nd = \<lparr>m_buffer = replicate c Raw, m_capacity = c\<rparr>"
  by (auto simp: RawMemory_new_def Allocate_def split: if_splits)

lemma copy_construct_Inr: "copy_construct T s = Inr s' \<Longrightarrow> s' = s"
  by (auto simp: copy_construct_def split: slot.splits if_splits)

lemma copy_assign_Inr: "copy_assign T s = Inr s' \<Longrightarrow> s' = s"
  by (auto simp: copy_assign_def split: slot.splits if_splits)

lemma move_construct_Inr: "move_construct T s = Inr (t, s') \<Longrightarrow> t = s"
  by (auto simp: move_construct_def split: slot.splits if_splits)

lemma move_assign_Inr: "move_assign T s = Inr (t, s') \<Longrightarrow> t = s"
  by (auto simp: move_assign_def split: slot.splits if_splits)

lemma uninitialized_copy_n_length:
  "uninitialized_copy_n T src i n dst j = Inr d \<Longrightarrow> length d = length dst"
  by (induction n arbitrary: i j dst) (auto split: sum.splits prod.splits)

lemma uninitialized_copy_n_outside:
  "uninitialized_copy_n T src i n dst j = Inr d \<Longrightarrow> m < j \<or> j + n \<le> m \<Longrightarrow> d ! m = dst ! m"
proof (induction n arbitrary: i j dst)
  case 0
  then show ?case by simp
next
  case (Suc n)
  from Suc.prems(1) obtain s where
    r: "uninitialized_copy_n T src (Suc i) n (dst[j := s]) (Suc j) = Inr d"
    by (auto split: sum.splits prod.splits)
  have "d ! m = (dst[j := s]) ! m" using Suc.IH[OF r] Suc.prems(2) by auto
  then show ?case using Suc.prems(2) by auto
qed

lemma uninitialized_copy_n_inside:
  "uninitialized_copy_n T src i n dst j = Inr d \<Longrightarrow> j \<le> m \<Longrightarrow> m < j + n \<Longrightarrow> m < length dst
     \<Longrightarrow> d ! m = slot_at src (i + (m - j))"
proof (induction n arbitrary: i j dst)
  case 0
  then show ?case by simp
next
  case (Suc n)
  from Suc.prems(1) obtain s where s: "copy_construct T (slot_at src i) = Inr s"
    and r: "uninitialized_copy_n T src (Suc i) n (dst[j := s]) (Suc j) = Inr d"
    by (auto split: sum.splits prod.splits)
  have s_eq: "s = slot_at src i" using s by (rule copy_construct_Inr)
  show ?case
  proof (cases "m = j")
    case True
    have "d ! m = (dst[j := s]) ! m" using uninitialized_copy_n_outside[OF r, of m] True by simp
    then show ?thesis using True Suc.prems s_eq by simp
  next
    case False
    then have le: "Suc j \<le> m" using Suc.prems by simp
    have "d ! m = slot_at src (Suc i + (m - Suc j))"
      using Suc.IH[OF r le] Suc.prems by simp
    moreover have "Suc i + (m - Suc j) = i + (m - j)" using le by arith
    ultimately show ?thesis by (simp only:)
  qed
qed

lemma uninitialized_copy_n_take:
  assumes "uninitialized_copy_n T src 0 n dst 0 = Inr d" "n \<le> length src" "n \<le> length dst"
  shows "take n d = take n src"
proof (rule nth_equalityI)
  show "length (take n d) = length (take n src)"
    using assms uninitialized_copy_n_length[OF assms(1)] by simp
next
  fix m assume "m < length (take n d)"
  then have m: "m < n" by simp
  then have "d ! m = slot_at src m"
    using uninitialized_copy_n_inside[OF assms(1), of m] assms by simp
  then show "take n d ! m = take n src ! m" using m assms by (simp add: slot_at_def)
qed


lemma uninitialized_move_n_length:
  "uninitialized_move_n T src i n dst j = Inr (src', d) \<Longrightarrow> length d = length dst"
  by (induction n arbitrary: i j src dst) (auto split: sum.splits prod.splits)

lemma uninitialized_move_n_outside:
  "uninitialized_move_n T src i n dst j = Inr (src', d) \<Longrightarrow> m < j \<or> j + n \<le> m \<Longrightarrow> d ! m = dst ! m"
proof (induction n arbitrary: i j src dst)
  case 0
  then show ?case by simp
next
  case (Suc n)
  from Suc.prems(1) obtain s t where
    r: "uninitialized_move_n T (src[i := t]) (Suc i) n (dst[j := s]) (Suc j) = Inr (src', d)"
    by (auto split: sum.splits prod.splits)
  have "d ! m = (dst[j := s]) ! m" using Suc.IH[OF r] Suc.prems(2) by auto
  then show ?case using Suc.prems(2) by auto
qed

text \<open>The part of the source not yet moved from is what the rest of the loop reads.\<close>

lemma uninitialized_move_n_src_length:
  "uninitialized_move_n T src i n dst j = Inr (src', d) \<Longrightarrow> length src' = length src"
  by (induction n arbitrary: i j src dst) (auto split: sum.splits prod.splits)

lemma uninitialized_move_n_src_outside:
  "uninitialized_move_n T src i n dst j = Inr (src', d) \<Longrightarrow> m < i \<or> i + n \<le> m \<Longrightarrow> src' ! m = src ! m"
proof (induction n arbitrary: i j src dst)
  case 0
  then show ?case by simp
next
  case (Suc n)
  from Suc.prems(1) obtain s t where
    r: "uninitialized_move_n T (src[i := t]) (Suc i) n (dst[j := s]) (Suc j) = Inr (src', d)"
    by (auto split: sum.splits prod.splits)
  have "src' ! m = (src[i := t]) ! m" using Suc.IH[OF r] Suc.prems(2) by auto
  then show ?case using Suc.prems(2) by auto
qed

lemma uninitialized_move_n_inside:
  "uninitialized_move_n T src i n dst j = Inr (src', d) \<Longrightarrow> j \<le> m \<Longrightarrow> m < j + n \<Longrightarrow> m < length dst
     \<Longrightarrow> d ! m = slot_at src (i + (m - j))"
proof (induction n arbitrary: i j src dst)
  case 0
  then show ?case by simp
next
  case (Suc n)
  from Suc.prems(1) obtain s t where s: "move_construct T (slot_at src i) = Inr (s, t)"
    and r: "uninitialized_move_n T (src[i := t]) (Suc i) n (dst[j := s]) (Suc j) = Inr (src', d)"
    by (auto split: sum.splits prod.splits)
  have s_eq: "s = slot_at src i" using s by (rule move_construct_Inr)
  show ?case
  proof (cases "m = j")
    case True
    have "d ! m = (dst[j := s]) ! m" using uninitialized_move_n_outside[OF r, of m] True by simp
    then show ?thesis using True Suc.prems s_eq by simp
  next
    case False
    then have le: "Suc j \<le> m" using Suc.prems by simp
    have "d ! m = slot_at (src[i := t]) (Suc i + (m - Suc j))"
      using Suc.IH[OF r le] Suc.prems by simp
    moreover have "Suc i + (m - Suc j) = i + (m - j)" using le by arith
    moreover have "slot_at (src[i := t]) (i + (m - j)) = slot_at src (i + (m - j))"
      using le by (simp add: slot_at_def)
    ultimately show ?thesis by (simp only:)
  qed
qed

lemma uninitialized_move_n_take:
  assumes "uninitialized_move_n T src 0 n dst 0 = Inr (src', d)" "n \<le> length src" "n \<le> length dst"
  shows "take n d = take n src"
proof (rule nth_equalityI)
  show "length (take n d) = length (take n src)"
    using assms uninitialized_move_n_length[OF assms(1)] by simp
next
  fix m assume "m < length (take n d)"
  then have m: "m < n" by simp
  then have "d ! m = slot_at src m"
    using uninitialized_move_n_inside[OF assms(1), of m] assms by simp
  then show "take n d ! m = take n src ! m" using m assms by (simp add: slot_at_def)
qed

lemma move_backward_shift:
  "move_backward T first n (Suc (first + n)) buf = Inr r \<Longrightarrow> first + n < length buf \<Longrightarrow>
     length r = length buf \<and>
     (\<forall>m. first < m \<and> m \<le> first + n \<longrightarrow> r ! m = buf ! (m - 1)) \<and>
     (\<forall>m. m < first \<or> first + n < m \<longrightarrow> r ! m = buf ! m)"
proof (induction n arbitrary: buf)
  case 0
  then show ?case by auto
next
  case (Suc n)
  from Suc.prems(1) obtain s t where s: "move_assign T (slot_at buf (first + n)) = Inr (s, t)"
    and r: "move_backward T first n (Suc (first + n)) (buf[first + n := t, Suc (first + n) := s]) = Inr r"
    by (auto split: sum.splits prod.splits)
  let ?b = "buf[first + n := t, Suc (first + n) := s]"
  have s_eq: "s = buf ! (first + n)"
    using move_assign_Inr[OF s] Suc.prems(2) by (simp add: slot_at_def)
  have len: "first + n < length ?b" using Suc.prems(2) by simp
  note IH = Suc.IH[OF r len]
  have l: "length r = length buf" using IH by simp
  have a: "r ! m = buf ! (m - 1)" if "first < m" "m \<le> first + Suc n" for m
  proof (cases "m = Suc (first + n)")
    case True
    then have "r ! m = ?b ! m" using IH by simp
    then show ?thesis using True s_eq Suc.prems(2) by simp
  next
    case False
    then have "m \<le> first + n" using that by simp
    then have "r ! m = ?b ! (m - 1)" using IH that by simp
    then show ?thesis using that \<open>m \<le> first + n\<close> by simp
  qed
  have b: "r ! m = buf ! m" if "m < first \<or> first + Suc n < m" for m
  proof -
    have "r ! m = ?b ! m" using IH that by auto
    then show ?thesis using that by auto
  qed
  show ?case using l a b by blast
qed

lemma std_move_shift:
  "std_move T (Suc first) n first buf = Inr r \<Longrightarrow> first + n < length buf \<Longrightarrow>
     length r = length buf \<and>
     (\<forall>m. first \<le> m \<and> m < first + n \<longrightarrow> r ! m = buf ! (Suc m)) \<and>
     (\<forall>m. m < first \<or> first + n < m \<longrightarrow> r ! m = buf ! m)"
proof (induction n arbitrary: first buf)
  case 0
  then show ?case by auto
next
  case (Suc n)
  from Suc.prems(1) obtain s t where s: "move_assign T (slot_at buf (Suc first)) = Inr (s, t)"
    and r: "std_move T (Suc (Suc first)) n (Suc first) (buf[Suc first := t, first := s]) = Inr r"
    by (auto split: sum.splits prod.splits)
  let ?b = "buf[Suc first := t, first := s]"
  have s_eq: "s = buf ! (Suc first)"
    using move_assign_Inr[OF s] Suc.prems(2) by (simp add: slot_at_def)
  have len: "Suc first + n < length ?b" using Suc.prems(2) by simp
  note IH = Suc.IH[OF r len]
  have l: "length r = length buf" using IH by simp
  have a: "r ! m = buf ! (Suc m)" if "first \<le> m" "m < first + Suc n" for m
  proof (cases "m = first")
    case True
    then have "r ! m = ?b ! m" using IH by simp
    then show ?thesis using True s_eq Suc.prems(2) by simp
  next
    case False
    then have "Suc first \<le> m" using that by simp
    then have "r ! m = ?b ! (Suc m)" using IH that by simp
    then show ?thesis using \<open>Suc first \<le> m\<close> by simp
  qed
  have b: "r ! m = buf ! m" if "m < first \<or> first + Suc n < m" for m
  proof -
    have "r ! m = ?b ! m" using IH that by auto
    then show ?thesis using that by auto
  qed
  show ?case using l a b by blast
qed

section \<open>Insertion and removal keep the other elements\<close>

lemma insert_shape:
  assumes "Suc n \<le> length bf" "index \<le> n" "n \<le> length buf"
    and "\<forall>m<index. bf ! m = buf ! m"
    and "bf ! index = y"
    and "\<forall>m. index < m \<and> m \<le> n \<longrightarrow> bf ! m = buf ! (m - 1)"
  shows "take (Suc n) bf = take index (take n buf) @ y # drop index (take n buf)"
proof (rule nth_equalityI)
  show "length (take (Suc n) bf) = length (take index (take n buf) @ y # drop index (take n buf))"
    using assms(1-3) by simp
next
  fix m assume "m < length (take (Suc n) bf)"
  then have m: "m \<le> n" using assms(1) by simp
  consider "m < index" | "m = index" | "index < m" by arith
  then show "take (Suc n) bf ! m = (take index (take n buf) @ y # drop index (take n buf)) ! m"
  proof cases
    case 1
    then show ?thesis using assms m by (simp add: nth_append)
  next
    case 2
    then show ?thesis using assms m by (simp add: nth_append)
  next
    case 3
    then obtain k where k: "m = Suc (index + k)" using less_iff_Suc_add by auto
    then show ?thesis using assms m 3 by (simp add: nth_append)
  qed
qed

lemma erase_shape:
  assumes "n \<le> length bf" "shift < n" "n \<le> length buf"
    and "\<forall>m<shift. bf ! m = buf ! m"
    and "\<forall>m. shift \<le> m \<and> m < n - 1 \<longrightarrow> bf ! m = buf ! (Suc m)"
  shows "take (n - 1) bf = take shift (take n buf) @ drop (Suc shift) (take n buf)"
proof (rule nth_equalityI)
  show "length (take (n - 1) bf) = length (take shift (take n buf) @ drop (Suc shift) (take n buf))"
    using assms(1-3) by simp
next
  fix m assume "m < length (take (n - 1) bf)"
  then have m: "m < n - 1" using assms(1) by simp
  show "take (n - 1) bf ! m = (take shift (take n buf) @ drop (Suc shift) (take n buf)) ! m"
  proof (cases "m < shift")
    case True
    then show ?thesis using assms m by (simp add: nth_append)
  next
    case False
    then obtain k where k: "m = shift + k" using le_Suc_ex not_less by blast
    then show ?thesis using assms m False by (simp add: nth_append)
  qed
qed

lemma destroy_n_length: "length (fst (destroy_n i n st)) = length (fst st)"
  by (induction n arbitrary: i st) (auto simp: destroy_at_def split: prod.splits)

lemma destroy_n_below: "m < i \<Longrightarrow> fst (destroy_n i n st) ! m = fst st ! m"
  by (induction n arbitrary: i st) (auto simp: destroy_at_def split: prod.splits)

lemma PopBack_fields:
  "m_size (PopBack v) = m_size v - 1"
  "m_capacity (m_data (PopBack v)) = m_capacity (m_data v)"
  "length (m_buffer (m_data (PopBack v))) = length (m_buffer (m_data v))"
  by (auto simp: PopBack_def destroy_own_def destroy_at_def Let_def split: prod.splits)

lemma PopBack_below:
  "m < m_size v \<Longrightarrow> m_buffer (m_data (PopBack v)) ! m = m_buffer (m_data v) ! m"
  by (auto simp: PopBack_def destroy_own_def destroy_at_def Let_def split: prod.splits)

lemma Erase_Inr:
  assumes "wf v" "Erase T shift v = Inr v'"
  shows "shift < m_size v \<and> m_size v' = m_size v - 1 \<and> Capacity v' = Capacity v \<and> wf v' \<and>
         elems v' = take shift (elems v) @ drop (Suc shift) (elems v)"
proof -
  let ?buf = "m_buffer (m_data v)" and ?n = "m_size v"
  from assms(2) have sh: "shift < ?n" by (auto simp: Erase_def split: if_splits)
  from assms(2) sh obtain b where
    b: "std_move T (Suc shift) (?n - Suc shift) shift ?buf = Inr b" and
    v': "v' = PopBack (with_buffer b v)"
    by (auto simp: Erase_def split: sum.splits prod.splits)
  have len: "length ?buf = m_capacity (m_data v)" "?n \<le> length ?buf" using assms(1) by (auto simp: wf_def)
  have "shift + (?n - Suc shift) < length ?buf" using sh len by simp
  note S = std_move_shift[OF b this]
  have lb: "length b = length ?buf" using S by simp
  have sz: "m_size v' = ?n - 1" by (simp add: v' PopBack_fields with_buffer_def)
  have cap: "Capacity v' = Capacity v"
    by (simp add: v' Capacity_def PopBack_fields with_buffer_def)
  have lv': "length (m_buffer (m_data v')) = length ?buf"
    by (simp add: v' PopBack_fields with_buffer_def lb)
  have wf': "wf v'" using len sz cap lv' by (simp add: wf_def Capacity_def)
  have nth: "m_buffer (m_data v') ! m = b ! m" if "m < ?n" for m
    using that by (simp add: v' PopBack_below with_buffer_def)
  have "take (?n - 1) (m_buffer (m_data v')) = take shift (take ?n ?buf) @ drop (Suc shift) (take ?n ?buf)"
  proof (rule erase_shape)
    show "?n \<le> length (m_buffer (m_data v'))" using lv' len by simp
    show "shift < ?n" by (rule sh)
    show "?n \<le> length ?buf" using len by simp
    show "\<forall>m<shift. m_buffer (m_data v') ! m = ?buf ! m" using nth S sh by auto
    show "\<forall>m. shift \<le> m \<and> m < ?n - 1 \<longrightarrow> m_buffer (m_data v') ! m = ?buf ! Suc m"
      using nth S sh by auto
  qed
  then have "elems v' = take shift (elems v) @ drop (Suc shift) (elems v)"
    by (simp add: elems_def sz)
  then show ?thesis using sh sz cap wf' by simp
qed

lemma adopt_fields:
  "m_buffer (m_data (adopt old nd v)) = m_buffer nd"
  "m_capacity (m_data (adopt old nd v)) = m_capacity nd"
  "m_size (adopt old nd v) = m_size v"
  by (auto simp: adopt_def RawMemory_Swap_def split: prod.splits)

lemma Emplace_try_Inr:
  assumes "wf v" "index \<le> m_size v" "m_size v < Capacity v" "Emplace_try T index ctor v = Inr v1"
  shows "\<exists>x. ctor = Some x \<and> m_size v1 = m_size v \<and> m_capacity (m_data v1) = m_capacity (m_data v) \<and>
           length (m_buffer (m_data v1)) = length (m_buffer (m_data v)) \<and>
           take (Suc (m_size v)) (m_buffer (m_data v1))
             = take index (elems v) @ Live x # drop index (elems v)"
proof -
  let ?buf = "m_buffer (m_data v)" and ?n = "m_size v"
  have len: "length ?buf = m_capacity (m_data v)" "?n < length ?buf"
    using assms(1,3) by (auto simp: wf_def Capacity_def)
  show ?thesis
  proof (cases "index = ?n")
    case True
    with assms(4) obtain x where x: "ctor = Some x"
      and v1: "v1 = with_buffer (?buf[?n := Live x]) v"
      by (auto simp: Emplace_try_def Let_def split: option.splits)
    have "take (Suc ?n) (?buf[?n := Live x]) = take ?n ?buf @ [Live x]"
      using len by (simp add: take_Suc_conv_app_nth)
    then show ?thesis using x v1 True len by (simp add: with_buffer_def elems_def)
  next
    case False
    then have lt: "index < ?n" using assms(2) by simp
    from assms(4) False obtain x s t b u w where x: "ctor = Some x"
      and mc: "move_construct T (slot_at ?buf (?n - 1)) = Inr (s, t)"
      and mb: "move_backward T index (?n - 1 - index) ?n (?buf[?n - 1 := t, ?n := s]) = Inr b"
      and ma: "move_assign T (Live x) = Inr (u, w)"
      and v1: "v1 = with_buffer (b[index := u]) v"
      by (auto simp: Emplace_try_def Let_def split: option.splits sum.splits prod.splits)
    let ?b1 = "?buf[?n - 1 := t, ?n := s]"
    have s_eq: "s = ?buf ! (?n - 1)" using move_construct_Inr[OF mc] len by (auto simp: slot_at_def)
    have u_eq: "u = Live x" using move_assign_Inr[OF ma] by simp
    have n_eq: "?n = Suc (index + (?n - 1 - index))" using lt by simp
    have mb': "move_backward T index (?n - 1 - index) (Suc (index + (?n - 1 - index))) ?b1 = Inr b"
      using mb n_eq by simp
    have "index + (?n - 1 - index) < length ?b1" using lt len by simp
    note S = move_backward_shift[OF mb' this]
    have lb: "length b = length ?buf" using S by simp
    have "take (Suc ?n) (b[index := u]) = take index (take ?n ?buf) @ Live x # drop index (take ?n ?buf)"
    proof (rule insert_shape)
      show "Suc ?n \<le> length (b[index := u])" using lb len by simp
      show "index \<le> ?n" by (rule assms(2))
      show "?n \<le> length ?buf" using len by simp
      show "\<forall>m<index. b[index := u] ! m = ?buf ! m" using S lt by auto
      show "b[index := u] ! index = Live x" using u_eq lt lb len by simp
      show "\<forall>m. index < m \<and> m \<le> ?n \<longrightarrow> b[index := u] ! m = ?buf ! (m - 1)"
      proof (intro allI impI)
        fix m assume m: "index < m \<and> m \<le> ?n"
        show "b[index := u] ! m = ?buf ! (m - 1)"
        proof (cases "m = ?n")
          case True
          have "b ! ?n = ?b1 ! ?n" using S lt by auto
          then show ?thesis using True m s_eq len by simp
        next
          case False
          then have "m \<le> index + (?n - 1 - index)" using m by arith
          then have "b ! m = ?b1 ! (m - 1)" using S m by auto
          moreover have "m - 1 \<noteq> ?n - 1" "m - 1 \<noteq> ?n" using m False by arith+
          ultimately show ?thesis using m by simp
        qed
      qed
    qed
    then show ?thesis using x v1 lb by (simp add: with_buffer_def elems_def)
  qed
qed

lemma Emplace_grow_copy:
  assumes "index \<le> n" "n \<le> length buf" "n < c"
    and b1: "uninitialized_copy_n T buf 0 index ((replicate c Raw)[index := Live x]) 0 = Inr b1"
    and b2: "uninitialized_copy_n T buf index (n - index) b1 (index + 1) = Inr b2"
  shows "length b2 = c \<and> take (Suc n) b2 = take index (take n buf) @ Live x # drop index (take n buf)"
proof -
  have l1: "length b1 = c" using uninitialized_copy_n_length[OF b1] by simp
  have l2: "length b2 = c" using uninitialized_copy_n_length[OF b2] l1 by simp
  have "take (Suc n) b2 = take index (take n buf) @ Live x # drop index (take n buf)"
  proof (rule insert_shape)
    show "Suc n \<le> length b2" using l2 assms(3) by simp
    show "index \<le> n" by (rule assms(1))
    show "n \<le> length buf" by (rule assms(2))
    show "\<forall>m<index. b2 ! m = buf ! m"
    proof (intro allI impI)
      fix m assume m: "m < index"
      have "b2 ! m = b1 ! m" using uninitialized_copy_n_outside[OF b2, of m] m by simp
      also have "\<dots> = slot_at buf (0 + (m - 0))"
        using uninitialized_copy_n_inside[OF b1, of m] m assms by simp
      finally show "b2 ! m = buf ! m" using m assms by (simp add: slot_at_def)
    qed
    have "b2 ! index = b1 ! index" using uninitialized_copy_n_outside[OF b2, of index] by simp
    also have "\<dots> = ((replicate c Raw)[index := Live x]) ! index"
      using uninitialized_copy_n_outside[OF b1, of index] by simp
    finally show "b2 ! index = Live x" using assms by simp
    show "\<forall>m. index < m \<and> m \<le> n \<longrightarrow> b2 ! m = buf ! (m - 1)"
    proof (intro allI impI)
      fix m assume m: "index < m \<and> m \<le> n"
      have "b2 ! m = slot_at buf (index + (m - (index + 1)))"
        using uninitialized_copy_n_inside[OF b2, of m] m l1 assms by simp
      moreover have "index + (m - (index + 1)) = m - 1" using m by arith
      moreover have "m - 1 < length buf" using m assms by arith
      ultimately show "b2 ! m = buf ! (m - 1)" by (simp add: slot_at_def)
    qed
  qed
  then show ?thesis using l2 by simp
qed

lemma Emplace_grow_move:
  assumes "index \<le> n" "n \<le> length buf" "n < c"
    and b1: "uninitialized_move_n T buf 0 index ((replicate c Raw)[index := Live x]) 0 = Inr (src1, b1)"
    and b2: "uninitialized_move_n T src1 index (n - index) b1 (index + 1) = Inr (src2, b2)"
  shows "length b2 = c \<and> take (Suc n) b2 = take index (take n buf) @ Live x # drop index (take n buf)"
proof -
  have l1: "length b1 = c" using uninitialized_move_n_length[OF b1] by simp
  have l2: "length b2 = c" using uninitialized_move_n_length[OF b2] l1 by simp
  have ls: "length src1 = length buf" using uninitialized_move_n_src_length[OF b1] .
  have "take (Suc n) b2 = take index (take n buf) @ Live x # drop index (take n buf)"
  proof (rule insert_shape)
    show "Suc n \<le> length b2" using l2 assms(3) by simp
    show "index \<le> n" by (rule assms(1))
    show "n \<le> length buf" by (rule assms(2))
    show "\<forall>m<index. b2 ! m = buf ! m"
    proof (intro allI impI)
      fix m assume m: "m < index"
      have "b2 ! m = b1 ! m" using uninitialized_move_n_outside[OF b2, of m] m by simp
      also have "\<dots> = slot_at buf (0 + (m - 0))"
        using uninitialized_move_n_inside[OF b1, of m] m assms by simp
      finally show "b2 ! m = buf ! m" using m assms by (simp add: slot_at_def)
    qed
    have "b2 ! index = b1 ! index" using uninitialized_move_n_outside[OF b2, of index] by simp
    also have "\<dots> = ((replicate c Raw)[index := Live x]) ! index"
      using uninitialized_move_n_outside[OF b1, of index] by simp
    finally show "b2 ! index = Live x" using assms by simp
    show "\<forall>m. index < m \<and> m \<le> n \<longrightarrow> b2 ! m = buf ! (m - 1)"
    proof (intro allI impI)
      fix m assume m: "index < m \<and> m \<le> n"
      have "b2 ! m = slot_at src1 (index + (m - (index + 1)))"
        using uninitialized_move_n_inside[OF b2, of m] m l1 assms by simp
      moreover have e: "index + (m - (index + 1)) = m - 1" using m by arith
      moreover have "index \<le> m - 1" using m by arith
      then have "src1 ! (m - 1) = buf ! (m - 1)"
        using uninitialized_move_n_src_outside[OF b1, of "m - 1"] by simp
      moreover have "m - 1 < length buf" using m assms by arith
      ultimately show "b2 ! m = buf ! (m - 1)" using ls by (simp add: slot_at_def)
    qed
  qed
  then show ?thesis using l2 by simp
qed

lemma Emplace_Inr:
  assumes "wf v" "Emplace T index ctor v = Inr v'"
  shows "\<exists>x. ctor = Some x \<and> index \<le> m_size v \<and> m_size v' = Suc (m_size v) \<and> wf v' \<and>
           elems v' = take index (elems v) @ Live x # drop index (elems v)"
proof -
  let ?buf = "m_buffer (m_data v)" and ?n = "m_size v"
  from assms(2) have idx: "index \<le> ?n" by (auto simp: Emplace_def split: if_splits)
  have len: "length ?buf = m_capacity (m_data v)" "?n \<le> length ?buf"
    using assms(1) by (auto simp: wf_def)
  show ?thesis
  proof (cases "Capacity v > ?n")
    case True
    with assms(2) idx obtain v1 where t: "Emplace_try T index ctor v = Inr v1"
      and v': "v' = v1\<lparr>m_size := m_size v1 + 1\<rparr>"
      by (auto simp: Emplace_def split: sum.splits prod.splits)
    from Emplace_try_Inr[OF assms(1) idx True t] obtain x where x: "ctor = Some x"
      and f: "m_size v1 = ?n" "m_capacity (m_data v1) = m_capacity (m_data v)"
        "length (m_buffer (m_data v1)) = length ?buf"
        "take (Suc ?n) (m_buffer (m_data v1)) = take index (elems v) @ Live x # drop index (elems v)"
      by blast
    have "wf v'" using f len True by (simp add: v' wf_def Capacity_def)
    moreover have "elems v' = take index (elems v) @ Live x # drop index (elems v)"
      using f by (simp add: v' elems_def)
    ultimately show ?thesis using x idx f by (simp add: v')
  next
    case False
    then have full: "Capacity v = ?n" "length ?buf = ?n" using assms(1) by (auto simp: wf_def Capacity_def)
    let ?c = "if ?n = 0 then 1 else ?n * 2"
    have c: "?n < ?c" by simp
    from assms(2) idx False obtain nd x where nd: "RawMemory_new T ?c = Inr nd" and x: "ctor = Some x"
      by (auto simp: Emplace_def split: sum.splits option.splits)
    have nd_eq: "nd = \<lparr>m_buffer = replicate ?c Raw, m_capacity = ?c\<rparr>"
      using RawMemory_new_Inr[OF nd] .
    have "\<exists>old b2. v' = (adopt old (nd\<lparr>m_buffer := b2\<rparr>) v)\<lparr>m_size := ?n + 1\<rparr> \<and> length b2 = ?c \<and>
            take (Suc ?n) b2 = take index (take ?n ?buf) @ Live x # drop index (take ?n ?buf)"
    proof (cases "\<not> nothrow_move_constructible T \<and> copy_constructible T")
      case True
      with assms(2) idx False nd x obtain b1 b2 where
        b1: "uninitialized_copy_n T ?buf 0 index ((m_buffer nd)[index := Live x]) 0 = Inr b1" and
        b2: "uninitialized_copy_n T ?buf index (?n - index) b1 (index + 1) = Inr b2" and
        v': "v' = (adopt ?buf (nd\<lparr>m_buffer := b2\<rparr>) v)\<lparr>m_size := ?n + 1\<rparr>"
        by (auto simp: Emplace_def Let_def split: sum.splits prod.splits)
      from b1 have b1': "uninitialized_copy_n T ?buf 0 index ((replicate ?c Raw)[index := Live x]) 0 = Inr b1"
        by (simp add: nd_eq)
      from Emplace_grow_copy[OF idx len(2) c b1' b2] v' show ?thesis by blast
    next
      case False
      with assms(2) idx \<open>\<not> ?n < Capacity v\<close> nd x obtain src1 b1 src2 b2 where
        b1: "uninitialized_move_n T ?buf 0 index ((m_buffer nd)[index := Live x]) 0 = Inr (src1, b1)" and
        b2: "uninitialized_move_n T src1 index (?n - index) b1 (index + 1) = Inr (src2, b2)" and
        v': "v' = (adopt src2 (nd\<lparr>m_buffer := b2\<rparr>) v)\<lparr>m_size := ?n + 1\<rparr>"
        by (auto simp: Emplace_def Let_def split: sum.splits prod.splits)
      from b1 have b1': "uninitialized_move_n T ?buf 0 index ((replicate ?c Raw)[index := Live x]) 0 = Inr (src1, b1)"
        by (simp add: nd_eq)
      from Emplace_grow_move[OF idx len(2) c b1' b2] v' show ?thesis by blast
    qed
    then obtain old b2 where v': "v' = (adopt old (nd\<lparr>m_buffer := b2\<rparr>) v)\<lparr>m_size := ?n + 1\<rparr>"
      and l: "length b2 = ?c"
      and t: "take (Suc ?n) b2 = take index (take ?n ?buf) @ Live x # drop index (take ?n ?buf)"
      by blast
    have "wf v'" using l c by (simp add: v' wf_def adopt_fields nd_eq)
    moreover have "elems v' = take index (elems v) @ Live x # drop index (elems v)"
      using t by (simp add: v' elems_def adopt_fields)
    ultimately show ?thesis using x idx by (simp add: v' adopt_fields)
  qed
qed

section \<open>Growth\<close>



lemma Reserve_Inr:
  assumes "wf v" "Capacity v < new_capacity" "Reserve T new_capacity v = Inr v'"
  shows "Capacity v' = new_capacity \<and> m_size v' = m_size v \<and> elems v' = elems v \<and> wf v'"
proof -
  let ?buf = "m_buffer (m_data v)" and ?n = "m_size v"
  have len: "?n \<le> length ?buf" "?n \<le> new_capacity" using assms(1,2) by (auto simp: wf_def Capacity_def)
  from assms(2,3) obtain nd where nd: "RawMemory_new T new_capacity = Inr nd"
    by (auto simp: Reserve_def split: sum.splits)
  have nd_eq: "nd = \<lparr>m_buffer = replicate new_capacity Raw, m_capacity = new_capacity\<rparr>"
    using RawMemory_new_Inr[OF nd] .
  have "\<exists>old b. v' = adopt old (nd\<lparr>m_buffer := b\<rparr>) v \<and> length b = new_capacity \<and> take ?n b = take ?n ?buf"
  proof (cases "nothrow_move_constructible T \<or> \<not> copy_constructible T")
    case True
    with assms(2,3) nd obtain src b where
      b: "uninitialized_move_n T ?buf 0 ?n (m_buffer nd) 0 = Inr (src, b)" and
      v': "v' = adopt src (nd\<lparr>m_buffer := b\<rparr>) v"
      by (auto simp: Reserve_def split: sum.splits prod.splits)
    have "length b = new_capacity" using uninitialized_move_n_length[OF b] by (simp add: nd_eq)
    moreover have "take ?n b = take ?n ?buf"
      using uninitialized_move_n_take[OF b] len by (simp add: nd_eq)
    ultimately show ?thesis using v' by blast
  next
    case False
    with assms(2,3) nd obtain b where
      b: "uninitialized_copy_n T ?buf 0 ?n (m_buffer nd) 0 = Inr b" and
      v': "v' = adopt ?buf (nd\<lparr>m_buffer := b\<rparr>) v"
      by (auto simp: Reserve_def split: sum.splits prod.splits)
    have "length b = new_capacity" using uninitialized_copy_n_length[OF b] by (simp add: nd_eq)
    moreover have "take ?n b = take ?n ?buf"
      using uninitialized_copy_n_take[OF b] len by (simp add: nd_eq)
    ultimately show ?thesis using v' by blast
  qed
  then obtain old b where v': "v' = adopt old (nd\<lparr>m_buffer := b\<rparr>) v"
    and l: "length b = new_capacity" and t: "take ?n b = take ?n ?buf" by blast
  show ?thesis using l t len by (simp add: v' Capacity_def elems_def wf_def adopt_fields nd_eq)
qed

lemma Vector_copy_Inr:
  assumes "m_size other \<le> length (m_buffer (m_data other))" "Vector_copy T other = Inr c"
  shows "m_size c = m_size other \<and> Capacity c = m_size other \<and> elems c = elems other \<and> wf c"
proof -
  let ?n = "m_size other"
  from assms(2) obtain nd b where nd: "RawMemory_new T ?n = Inr nd"
    and b: "uninitialized_copy_n T (m_buffer (m_data other)) 0 ?n (m_buffer nd) 0 = Inr b"
    and c: "c = \<lparr>m_data = nd\<lparr>m_buffer := b\<rparr>, m_size = ?n, m_misuse = []\<rparr>"
    by (auto simp: Vector_copy_def split: sum.splits prod.splits)
  have nd_eq: "nd = \<lparr>m_buffer = replicate ?n Raw, m_capacity = ?n\<rparr>"
    using RawMemory_new_Inr[OF nd] .
  have l: "length b = ?n" using uninitialized_copy_n_length[OF b] by (simp add: nd_eq)
  have "take ?n b = take ?n (m_buffer (m_data other))"
    using uninitialized_copy_n_take[OF b] assms(1) by (simp add: nd_eq)
  then show ?thesis using l by (simp add: c nd_eq Capacity_def elems_def wf_def)
qed

section \<open>Element types that do not throw\<close>












section \<open>Size and capacity\<close>

lemma with_buffer_fields:
  "m_size (with_buffer b v) = m_size v"
  "m_capacity (m_data (with_buffer b v)) = m_capacity (m_data v)"
  "m_buffer (m_data (with_buffer b v)) = b"
  by (simp_all add: with_buffer_def)

lemma destroy_own_fields:
  "m_size (destroy_own i n v) = m_size v"
  "m_capacity (m_data (destroy_own i n v)) = m_capacity (m_data v)"
  by (simp_all add: destroy_own_def split: prod.splits)















section \<open>The storage invariant is kept\<close>

text \<open>
  Every constructor establishes \<open>wf\<close> and every member function keeps it, whether it
  returns or throws.
\<close>

lemma uninitialized_copy_n_length_Inl:
  "uninitialized_copy_n T src i n dst j = Inl (e, d) \<Longrightarrow> length d = length dst"
  by (induction n arbitrary: i j dst d) (auto split: sum.splits prod.splits)

lemma uninitialized_move_n_length_Inl:
  "uninitialized_move_n T src i n dst j = Inl (e, src', d) \<Longrightarrow>
     length src' = length src \<and> length d = length dst"
  by (induction n arbitrary: i j src dst d) (auto split: sum.splits prod.splits)

lemma uninitialized_value_construct_n_length:
  "uninitialized_value_construct_n T j n buf = Inr b \<Longrightarrow> length b = length buf"
  "uninitialized_value_construct_n T j n buf = Inl (e, b) \<Longrightarrow> length b = length buf"
  by (induction n arbitrary: j buf b) (auto split: sum.splits prod.splits option.splits)

lemma copy_n_length:
  "copy_n T src i n dst j = Inr d \<Longrightarrow> length d = length dst"
  "copy_n T src i n dst j = Inl (e, d) \<Longrightarrow> length d = length dst"
  by (induction n arbitrary: i j dst d) (auto split: sum.splits prod.splits)

lemma std_move_length:
  "std_move T first n d_first buf = Inr b \<Longrightarrow> length b = length buf"
  "std_move T first n d_first buf = Inl (e, b) \<Longrightarrow> length b = length buf"
  by (induction n arbitrary: first d_first buf b) (auto split: sum.splits prod.splits)

lemma move_backward_length:
  "move_backward T first n d_last buf = Inr b \<Longrightarrow> length b = length buf"
  "move_backward T first n d_last buf = Inl (e, b) \<Longrightarrow> length b = length buf"
  by (induction n arbitrary: d_last buf b) (auto split: sum.splits prod.splits)

lemma destroy_own_length:
  "length (m_buffer (m_data (destroy_own i n v))) = length (m_buffer (m_data v))"
  using destroy_n_length[of i n "(m_buffer (m_data v), m_misuse v)"]
  by (auto simp: destroy_own_def split: prod.splits)

lemma wf_with_buffer:
  "wf v \<Longrightarrow> length b = length (m_buffer (m_data v)) \<Longrightarrow> wf (with_buffer b v)"
  by (simp add: wf_def with_buffer_def)

lemma wf_adopt:
  "m_size v \<le> m_capacity nd \<Longrightarrow> length (m_buffer nd) = m_capacity nd \<Longrightarrow> wf (adopt old nd v)"
  by (simp add: wf_def adopt_fields)

lemma wf_PopBack: "wf v \<Longrightarrow> wf (PopBack v)"
  by (auto simp: wf_def PopBack_fields)

lemma wf_Erase: "wf v \<Longrightarrow> wf (after (Erase T shift v))"
  by (auto simp: Erase_def after_def std_move_length intro!: wf_PopBack wf_with_buffer
      split: sum.splits prod.splits)

lemma wf_Reserve: "wf v \<Longrightarrow> wf (after (Reserve T n v))"
  by (auto simp: Reserve_def after_def Capacity_def wf_def[of v]
      uninitialized_copy_n_length uninitialized_move_n_length
      dest!: RawMemory_new_Inr uninitialized_move_n_length_Inl
      intro!: wf_adopt wf_with_buffer[unfolded wf_def[of v]]
      split: sum.splits prod.splits)

lemma Reserve_Inr_wf:
  "wf v \<Longrightarrow> Reserve T n v = Inr v1 \<Longrightarrow> wf v1 \<and> m_size v1 = m_size v \<and> n \<le> m_capacity (m_data v1)"
  using wf_Reserve[of v T n]
  by (auto simp: Reserve_def after_def Capacity_def adopt_fields dest!: RawMemory_new_Inr
      split: if_splits sum.splits prod.splits)

lemma wf_Resize:
  assumes "wf v"
  shows "wf (after (Resize T n v))"
proof -
  consider "n = m_size v" | "n < m_size v" | "m_size v < n" by arith
  then show ?thesis
  proof cases
    case 1
    then show ?thesis using assms by (simp add: Resize_def after_def)
  next
    case 2
    then show ?thesis using assms
      by (simp add: Resize_def after_def wf_def destroy_own_fields destroy_own_length)
  next
    case 3
    show ?thesis
    proof (cases "Reserve T n v")
      case (Inl r)
      then have "after (Resize T n v) = after (Reserve T n v)" using 3 by (simp add: Resize_def)
      then show ?thesis using wf_Reserve[OF assms, of T n] by simp
    next
      case (Inr v1)
      note f = Reserve_Inr_wf[OF assms Inr]
      let ?u = "uninitialized_value_construct_n T (m_size v1) (n - m_size v1) (m_buffer (m_data v1))"
      show ?thesis
      proof (cases ?u)
        case (Inl p)
        then obtain e b where u: "?u = Inl (e, b)" by (cases p) simp
        then have "after (Resize T n v) = with_buffer b v1" using 3 Inr by (simp add: Resize_def after_def)
        then show ?thesis using f uninitialized_value_construct_n_length(2)[OF u]
          by (simp add: wf_with_buffer)
      next
        case (Inr b)
        then have "after (Resize T n v) = (with_buffer b v1)\<lparr>m_size := n\<rparr>"
          using 3 \<open>Reserve T n v = Inr v1\<close> by (simp add: Resize_def after_def)
        then show ?thesis using f uninitialized_value_construct_n_length(1)[OF Inr]
          by (simp add: wf_def with_buffer_def)
      qed
    qed
  qed
qed

lemma wf_grown:
  "length b = c \<Longrightarrow> m_size v < c \<Longrightarrow>
     wf ((adopt old (\<lparr>m_buffer = x, m_capacity = c\<rparr>\<lparr>m_buffer := b\<rparr>) v)\<lparr>m_size := m_size v + 1\<rparr>)"
  by (simp add: wf_def adopt_fields)

lemma wf_EmplaceBack:
  assumes "wf v"
  shows "wf (after (EmplaceBack T ctor v))"
proof (cases "m_size v \<noteq> Capacity v")
  case True
  then show ?thesis using assms
    by (auto simp: EmplaceBack_def after_def Capacity_def wf_def with_buffer_def split: option.splits)
next
  case False
  let ?c = "if m_size v = 0 then 1 else m_size v * 2"
  have c: "m_size v < ?c" by simp
  show ?thesis
  proof (cases "RawMemory_new T ?c")
    case (Inl e)
    then show ?thesis using False assms by (simp add: EmplaceBack_def after_def)
  next
    case (Inr nd)
    have nd: "nd = \<lparr>m_buffer = replicate ?c Raw, m_capacity = ?c\<rparr>" using RawMemory_new_Inr[OF Inr] .
    show ?thesis
    proof (cases ctor)
      case None
      then show ?thesis using False assms Inr by (simp add: EmplaceBack_def after_def)
    next
      case (Some x)
      let ?nb = "(replicate ?c Raw)[m_size v := Live x]"
      show ?thesis
      proof (cases "\<not> nothrow_move_constructible T \<and> copy_constructible T")
        case True
        show ?thesis
        proof (cases "uninitialized_copy_n T (m_buffer (m_data v)) 0 (m_size v) ?nb 0")
          case (Inl p)
          then show ?thesis using False assms Inr Some True nd
            by (simp add: EmplaceBack_def after_def split: prod.splits)
        next
          case (Inr b)
          have "length b = ?c" using uninitialized_copy_n_length[OF Inr] by simp
          from wf_grown[OF this c] show ?thesis
            using False \<open>RawMemory_new T ?c = Inr nd\<close> Some True nd Inr
            by (simp add: EmplaceBack_def after_def)
        qed
      next
        case nc: False
        show ?thesis
        proof (cases "uninitialized_move_n T (m_buffer (m_data v)) 0 (m_size v) ?nb 0")
          case (Inl p)
          then obtain e src d where p: "p = (e, src, d)" by (cases p) auto
          have "length src = length (m_buffer (m_data v))"
            using uninitialized_move_n_length_Inl[OF Inl[unfolded p]] by simp
          from wf_with_buffer[OF assms this] show ?thesis
            using False \<open>RawMemory_new T ?c = Inr nd\<close> Some nc nd Inl p
            by (auto simp: EmplaceBack_def after_def)
        next
          case (Inr r)
          then obtain src b where r: "r = (src, b)" by (cases r) auto
          have "length b = ?c" using uninitialized_move_n_length[OF Inr[unfolded r]] by simp
          from wf_grown[OF this c] show ?thesis
            using False \<open>RawMemory_new T ?c = Inr nd\<close> Some nc nd Inr r
            by (auto simp: EmplaceBack_def after_def)
        qed
      qed
    qed
  qed
qed

lemma Emplace_try_shape:
  "m_size (after (Emplace_try T index ctor v)) = m_size v \<and>
   m_capacity (m_data (after (Emplace_try T index ctor v))) = m_capacity (m_data v) \<and>
   length (m_buffer (m_data (after (Emplace_try T index ctor v)))) = length (m_buffer (m_data v))"
  by (auto simp: Emplace_try_def after_def Let_def with_buffer_fields
      dest: move_backward_length split: sum.splits prod.splits option.splits)

lemma wf_Emplace:
  assumes "wf v"
  shows "wf (after (Emplace T index ctor v))"
proof -
  consider "\<not> index \<le> m_size v" | "index \<le> m_size v" "m_size v < Capacity v"
    | "index \<le> m_size v" "\<not> m_size v < Capacity v" by blast
  then show ?thesis
  proof cases
    case 1
    then show ?thesis using assms by (simp add: Emplace_def after_def)
  next
    case 2
    note S = Emplace_try_shape[of T index ctor v]
    show ?thesis
    proof (cases "Emplace_try T index ctor v")
      case (Inl p)
      then obtain e v' where p: "p = (e, v')" by (cases p) auto
      have "after (Emplace T index ctor v) = Emplace_catch v'"
        using 2 Inl p by (simp add: Emplace_def after_def)
      then show ?thesis using S assms Inl p by (simp add: after_def wf_def Emplace_catch_def)
    next
      case (Inr v')
      have "after (Emplace T index ctor v) = v'\<lparr>m_size := m_size v' + 1\<rparr>"
        using 2 Inr by (simp add: Emplace_def after_def)
      then show ?thesis using S assms Inr 2 by (simp add: after_def wf_def Capacity_def)
    qed
  next
    case 3
    define c where "c = (if m_size v = 0 then 1 else m_size v * 2)"
    let ?buf = "m_buffer (m_data v)"
    have c: "m_size v < c" by (simp add: c_def)
    show ?thesis
    proof (cases "RawMemory_new T c")
      case (Inl e)
      then show ?thesis using 3 assms by (simp add: Emplace_def after_def c_def)
    next
      case (Inr nd)
      have nd: "nd = \<lparr>m_buffer = replicate c Raw, m_capacity = c\<rparr>" using RawMemory_new_Inr[OF Inr] .
      show ?thesis
      proof (cases ctor)
        case None
        then show ?thesis using 3 assms Inr by (simp add: Emplace_def after_def c_def)
      next
        case (Some x)
        let ?nb = "(m_buffer nd)[index := Live x]"
        have lnb: "length ?nb = c" by (simp add: nd)
        show ?thesis
        proof (cases "\<not> nothrow_move_constructible T \<and> copy_constructible T")
          case True
          have E: "Emplace T index ctor v =
            (case uninitialized_copy_n T ?buf 0 index ?nb 0 of
               Inl (e, _) \<Rightarrow> Inl (e, v)
             | Inr b1 \<Rightarrow>
                 (case uninitialized_copy_n T ?buf index (m_size v - index) b1 (index + 1) of
                    Inl (e, _) \<Rightarrow> Inl (e, v)
                  | Inr b2 \<Rightarrow> Inr ((adopt ?buf (nd\<lparr>m_buffer := b2\<rparr>) v)\<lparr>m_size := m_size v + 1\<rparr>)))"
            using 3 Inr Some True by (simp add: Emplace_def Let_def c_def)
          show ?thesis
          proof (cases "uninitialized_copy_n T ?buf 0 index ?nb 0")
            case (Inl p)
            then show ?thesis using E assms by (simp add: after_def split: prod.splits)
          next
            case b1: (Inr b1)
            show ?thesis
            proof (cases "uninitialized_copy_n T ?buf index (m_size v - index) b1 (index + 1)")
              case (Inl p)
              then show ?thesis using E b1 assms by (simp add: after_def split: prod.splits)
            next
              case (Inr b2)
              have "length b2 = c"
                using uninitialized_copy_n_length[OF Inr] uninitialized_copy_n_length[OF b1] lnb by simp
              from wf_grown[OF this c] show ?thesis using E b1 Inr by (simp add: after_def nd)
            qed
          qed
        next
          case nc: False
          have E: "Emplace T index ctor v =
            (case uninitialized_move_n T ?buf 0 index ?nb 0 of
               Inl (e, src, _) \<Rightarrow> Inl (e, with_buffer src v)
             | Inr (src1, b1) \<Rightarrow>
                 (case uninitialized_move_n T src1 index (m_size v - index) b1 (index + 1) of
                    Inl (e, src, _) \<Rightarrow> Inl (e, with_buffer src v)
                  | Inr (src2, b2) \<Rightarrow> Inr ((adopt src2 (nd\<lparr>m_buffer := b2\<rparr>) v)\<lparr>m_size := m_size v + 1\<rparr>)))"
            using 3 Inr Some nc by (auto simp: Emplace_def Let_def c_def)
          show ?thesis
          proof (cases "uninitialized_move_n T ?buf 0 index ?nb 0")
            case (Inl p)
            then obtain e src d where p: "p = (e, src, d)" by (cases p) auto
            have "length src = length ?buf"
              using uninitialized_move_n_length_Inl[OF Inl[unfolded p]] by simp
            from wf_with_buffer[OF assms this] show ?thesis using E Inl p by (simp add: after_def)
          next
            case r1: (Inr r1)
            then obtain src1 b1 where r1': "r1 = (src1, b1)" by (cases r1) auto
            note m1 = r1[unfolded r1']
            show ?thesis
            proof (cases "uninitialized_move_n T src1 index (m_size v - index) b1 (index + 1)")
              case (Inl p)
              then obtain e src d where p: "p = (e, src, d)" by (cases p) auto
              have "length src = length ?buf"
                using uninitialized_move_n_length_Inl[OF Inl[unfolded p]]
                  uninitialized_move_n_src_length[OF m1] by simp
              from wf_with_buffer[OF assms this] show ?thesis using E m1 Inl p by (simp add: after_def)
            next
              case (Inr r2)
              then obtain src2 b2 where r2': "r2 = (src2, b2)" by (cases r2) auto
              have "length b2 = c"
                using uninitialized_move_n_length[OF Inr[unfolded r2']] uninitialized_move_n_length[OF m1] lnb
                by simp
              from wf_grown[OF this c] show ?thesis using E m1 Inr r2' by (simp add: after_def nd)
            qed
          qed
        qed
      qed
    qed
  qed
qed

lemma wf_Vector_copy: "Vector_copy T other = Inr c \<Longrightarrow> wf c"
  by (auto simp: Vector_copy_def wf_def uninitialized_copy_n_length
      dest!: RawMemory_new_Inr split: sum.splits prod.splits)

lemma wf_Vector_sized: "Vector_sized T n = Inr c \<Longrightarrow> wf c"
  by (auto simp: Vector_sized_def wf_def uninitialized_value_construct_n_length
      dest!: RawMemory_new_Inr split: sum.splits prod.splits)

lemma wf_Vector_default: "wf Vector_default"
  by (simp add: wf_def Vector_default_def RawMemory_default_def)

lemma wf_Swap: "wf v \<Longrightarrow> wf other \<Longrightarrow> wf (fst (Swap v other)) \<and> wf (snd (Swap v other))"
  by (simp add: wf_def Swap_def RawMemory_Swap_def)

lemma wf_Vector_move: "wf other \<Longrightarrow> wf (fst (Vector_move other)) \<and> wf (snd (Vector_move other))"
  using wf_Swap[OF wf_Vector_default] by (simp add: Vector_move_def)

lemma wf_assign_copy_body:
  assumes "wf v"
  shows "wf (after (assign_copy_body T v rhs))"
proof -
  consider "Capacity v < m_size rhs" | "\<not> Capacity v < m_size rhs" "m_size rhs < m_size v"
    | "\<not> Capacity v < m_size rhs" "\<not> m_size rhs < m_size v" by blast
  then show ?thesis
  proof cases
    case 1
    then show ?thesis using assms wf_Swap[OF assms] wf_Vector_copy[of T rhs]
      by (auto simp: assign_copy_body_def after_def split: sum.splits)
  next
    case 2
    then show ?thesis using assms
      by (auto simp: assign_copy_body_def after_def wf_def copy_n_length with_buffer_fields
          destroy_own_fields destroy_own_length split: sum.splits prod.splits)
  next
    case 3
    then show ?thesis using assms
      by (auto simp: assign_copy_body_def after_def wf_def Capacity_def copy_n_length with_buffer_fields
          uninitialized_copy_n_length uninitialized_copy_n_length_Inl split: sum.splits prod.splits)
  qed
qed

section \<open>The live prefix is kept\<close>

lemma live_upto_update: "live_upto k buf \<Longrightarrow> s \<noteq> Raw \<or> k \<le> i \<Longrightarrow> live_upto k (buf[i := s])"
proof -
  assume a: "live_upto k buf" "s \<noteq> Raw \<or> k \<le> i"
  have "buf[i := s] ! m \<noteq> Raw" if "m < k" for m
  proof (cases "m = i")
    case True
    then show ?thesis using a that by (auto simp: live_upto_def)
  next
    case False
    then show ?thesis using a that by (simp add: live_upto_def)
  qed
  then show ?thesis using a(1) by (simp add: live_upto_def)
qed

lemma live_upto_slot: "live_upto k buf \<Longrightarrow> i < k \<Longrightarrow> slot_at buf i \<noteq> Raw"
  by (simp add: live_upto_def slot_at_def)

lemma move_construct_live:
  "move_construct T s = Inr (t, s') \<Longrightarrow> s \<noteq> Raw \<Longrightarrow> t \<noteq> Raw \<and> s' \<noteq> Raw"
  by (auto simp: move_construct_def split: slot.splits if_splits)

lemma move_assign_live:
  "move_assign T s = Inr (t, s') \<Longrightarrow> s \<noteq> Raw \<Longrightarrow> t \<noteq> Raw \<and> s' \<noteq> Raw"
  by (auto simp: move_assign_def split: slot.splits if_splits)

lemma uninitialized_copy_n_below_Inl:
  "uninitialized_copy_n T src i n dst j = Inl (e, d) \<Longrightarrow> m < j \<Longrightarrow> d ! m = dst ! m"
  by (induction n arbitrary: i j dst d) (auto split: sum.splits prod.splits)

lemma uninitialized_value_construct_n_below:
  "uninitialized_value_construct_n T j n buf = Inr b \<Longrightarrow> m < j \<Longrightarrow> b ! m = buf ! m"
  "uninitialized_value_construct_n T j n buf = Inl (e, b) \<Longrightarrow> m < j \<Longrightarrow> b ! m = buf ! m"
  by (induction n arbitrary: j buf b) (auto split: sum.splits prod.splits option.splits)

lemma uninitialized_value_construct_n_inside:
  "uninitialized_value_construct_n T j n buf = Inr b \<Longrightarrow> j \<le> m \<Longrightarrow> m < j + n \<Longrightarrow> m < length buf
     \<Longrightarrow> b ! m \<noteq> Raw"
proof (induction n arbitrary: j buf)
  case 0
  then show ?case by simp
next
  case (Suc n)
  from Suc.prems(1) obtain x where x: "value_init T = Some x"
    and r: "uninitialized_value_construct_n T (Suc j) n (buf[j := Live x]) = Inr b"
    by (auto split: sum.splits prod.splits option.splits)
  show ?case
  proof (cases "m = j")
    case True
    then have "b ! m = (buf[j := Live x]) ! m"
      using uninitialized_value_construct_n_below(1)[OF r, of m] by simp
    then show ?thesis using True Suc.prems by simp
  next
    case False
    then show ?thesis using Suc.IH[OF r] Suc.prems by simp
  qed
qed

lemma uninitialized_move_n_src_live:
  "live_upto k src \<Longrightarrow> i + n \<le> k \<Longrightarrow>
     (uninitialized_move_n T src i n dst j = Inr (src', d) \<longrightarrow> live_upto k src') \<and>
     (uninitialized_move_n T src i n dst j = Inl (e, src', d) \<longrightarrow> live_upto k src')"
proof (induction n arbitrary: i j src dst d)
  case 0
  then show ?case by auto
next
  case (Suc n)
  show ?case
  proof (cases "move_construct T (slot_at src i)")
    case (Inl a)
    then show ?thesis using Suc.prems by auto
  next
    case (Inr p)
    then obtain s t where p: "p = (s, t)" by (cases p) auto
    have "slot_at src i \<noteq> Raw" using live_upto_slot[OF Suc.prems(1)] Suc.prems(2) by simp
    then have "t \<noteq> Raw" using move_construct_live[OF Inr[unfolded p]] by simp
    then have l: "live_upto k (src[i := t])" using live_upto_update[OF Suc.prems(1)] by simp
    have "Suc i + n \<le> k" using Suc.prems(2) by simp
    from Suc.IH[OF l this, of "dst[j := s]" "Suc j"] show ?thesis using Inr p
      by (auto split: sum.splits prod.splits)
  qed
qed

lemma copy_n_live:
  "live_upto k dst \<Longrightarrow> (\<forall>m. i \<le> m \<and> m < i + n \<longrightarrow> slot_at src m \<noteq> Raw) \<Longrightarrow>
     (copy_n T src i n dst j = Inr d \<longrightarrow> live_upto k d) \<and>
     (copy_n T src i n dst j = Inl (e, d) \<longrightarrow> live_upto k d)"
proof (induction n arbitrary: i j dst)
  case 0
  then show ?case by auto
next
  case (Suc n)
  show ?case
  proof (cases "copy_assign T (slot_at src i)")
    case (Inl a)
    then show ?thesis using Suc.prems by auto
  next
    case (Inr s)
    have s: "s = slot_at src i" using copy_assign_Inr[OF Inr] .
    have "slot_at src i \<noteq> Raw" using Suc.prems(2) by simp
    then have l: "live_upto k (dst[j := s])" using live_upto_update[OF Suc.prems(1)] s by simp
    have "\<forall>m. Suc i \<le> m \<and> m < Suc i + n \<longrightarrow> slot_at src m \<noteq> Raw" using Suc.prems(2) by simp
    from Suc.IH[OF l this, of "Suc j"] show ?thesis using Inr by simp
  qed
qed

lemma copy_n_below:
  "copy_n T src i n dst j = Inr d \<Longrightarrow> m < j \<Longrightarrow> d ! m = dst ! m"
  by (induction n arbitrary: i j dst) (auto split: sum.splits)

lemma copy_n_inside:
  "copy_n T src i n dst j = Inr d \<Longrightarrow> j \<le> m \<Longrightarrow> m < j + n \<Longrightarrow> m < length dst \<Longrightarrow>
     (\<forall>m. i \<le> m \<and> m < i + n \<longrightarrow> slot_at src m \<noteq> Raw) \<Longrightarrow> d ! m \<noteq> Raw"
proof (induction n arbitrary: i j dst)
  case 0
  then show ?case by simp
next
  case (Suc n)
  from Suc.prems(1) obtain s where s: "copy_assign T (slot_at src i) = Inr s"
    and r: "copy_n T src (Suc i) n (dst[j := s]) (Suc j) = Inr d"
    by (auto split: sum.splits)
  have s_eq: "s = slot_at src i" using copy_assign_Inr[OF s] .
  have sl: "s \<noteq> Raw" using Suc.prems(5) s_eq by simp
  have rest: "\<forall>m. Suc i \<le> m \<and> m < Suc i + n \<longrightarrow> slot_at src m \<noteq> Raw" using Suc.prems(5) by simp
  show ?case
  proof (cases "m = j")
    case True
    have "d ! j = (dst[j := s]) ! j" using copy_n_below[OF r, of j] by simp
    then show ?thesis using True sl Suc.prems(4) by simp
  next
    case False
    then show ?thesis using Suc.IH[OF r _ _ _ rest] Suc.prems by simp
  qed
qed

lemma std_move_live:
  "live_upto k buf \<Longrightarrow> first + n \<le> k \<Longrightarrow>
     (std_move T first n d_first buf = Inr b \<longrightarrow> live_upto k b) \<and>
     (std_move T first n d_first buf = Inl (e, b) \<longrightarrow> live_upto k b)"
proof (induction n arbitrary: first d_first buf)
  case 0
  then show ?case by auto
next
  case (Suc n)
  show ?case
  proof (cases "move_assign T (slot_at buf first)")
    case (Inl a)
    then show ?thesis using Suc.prems by auto
  next
    case (Inr p)
    then obtain s t where p: "p = (s, t)" by (cases p) auto
    have "slot_at buf first \<noteq> Raw" using live_upto_slot[OF Suc.prems(1)] Suc.prems(2) by simp
    then have "s \<noteq> Raw" "t \<noteq> Raw" using move_assign_live[OF Inr[unfolded p]] by simp_all
    then have l: "live_upto k (buf[first := t, d_first := s])"
      using live_upto_update[OF live_upto_update[OF Suc.prems(1)]] by simp
    have "Suc first + n \<le> k" using Suc.prems(2) by simp
    from Suc.IH[OF l this, of "Suc d_first"] show ?thesis using Inr p by simp
  qed
qed

lemma move_backward_live:
  "live_upto k buf \<Longrightarrow> first + n \<le> k \<Longrightarrow>
     (move_backward T first n d_last buf = Inr b \<longrightarrow> live_upto k b) \<and>
     (move_backward T first n d_last buf = Inl (e, b) \<longrightarrow> live_upto k b)"
proof (induction n arbitrary: d_last buf)
  case 0
  then show ?case by auto
next
  case (Suc n)
  show ?case
  proof (cases "move_assign T (slot_at buf (first + n))")
    case (Inl a)
    then show ?thesis using Suc.prems by auto
  next
    case (Inr p)
    then obtain s t where p: "p = (s, t)" by (cases p) auto
    have "slot_at buf (first + n) \<noteq> Raw" using live_upto_slot[OF Suc.prems(1)] Suc.prems(2) by simp
    then have "s \<noteq> Raw" "t \<noteq> Raw" using move_assign_live[OF Inr[unfolded p]] by simp_all
    then have l: "live_upto k (buf[first + n := t, d_last - 1 := s])"
      using live_upto_update[OF live_upto_update[OF Suc.prems(1)]] by simp
    have "first + n \<le> k" using Suc.prems(2) by simp
    from Suc.IH[OF l this, of "d_last - 1"] show ?thesis using Inr p by simp
  qed
qed

lemma live_upto_take: "live_upto k buf \<longleftrightarrow> k \<le> length buf \<and> Raw \<notin> set (take k buf)"
  by (auto simp: live_upto_def in_set_conv_nth)

lemma live_prefix_elems: "live_prefix v \<longleftrightarrow> wf v \<and> Raw \<notin> set (elems v)"
  by (auto simp: live_prefix_def live_upto_take elems_def wf_def)

lemma live_prefix_with_buffer:
  "wf v \<Longrightarrow> length b = length (m_buffer (m_data v)) \<Longrightarrow> live_upto (m_size v) b \<Longrightarrow>
     live_prefix (with_buffer b v)"
  by (simp add: live_prefix_def wf_with_buffer with_buffer_fields)

lemma live_PopBack: "live_prefix v \<Longrightarrow> live_prefix (PopBack v)"
proof -
  assume a: "live_prefix v"
  then have w: "wf v" by (simp add: live_prefix_def)
  have "m_buffer (m_data (PopBack v)) ! m \<noteq> Raw" if "m < m_size v - 1" for m
    using that a PopBack_below[of m v] by (simp add: live_prefix_def live_upto_def)
  then show ?thesis using wf_PopBack[OF w] a
    by (auto simp: live_prefix_def live_upto_def PopBack_fields wf_def)
qed

lemma live_Erase:
  assumes "live_prefix v"
  shows "live_prefix (after (Erase T shift v))"
proof -
  have w: "wf v" and l: "live_upto (m_size v) (m_buffer (m_data v))"
    using assms by (simp_all add: live_prefix_def)
  show ?thesis
  proof (cases "Erase T shift v")
    case (Inr v')
    from Erase_Inr[OF w Inr] have "wf v'" "elems v' = take shift (elems v) @ drop (Suc shift) (elems v)"
      by simp_all
    moreover have "Raw \<notin> set (elems v)" using assms by (simp add: live_prefix_elems)
    ultimately have "live_prefix v'"
      by (auto simp: live_prefix_elems dest: in_set_takeD in_set_dropD)
    then show ?thesis using Inr by (simp add: after_def)
  next
    case (Inl p)
    then obtain e v' where p: "p = (e, v')" by (cases p) auto
    show ?thesis
    proof (cases "shift < m_size v")
      case False
      then show ?thesis using assms by (simp add: Erase_def after_def)
    next
      case True
      with Inl p obtain b where
        b: "std_move T (shift + 1) (m_size v - (shift + 1)) shift (m_buffer (m_data v)) = Inl (e, b)"
        and v': "v' = with_buffer b v"
        by (auto simp: Erase_def split: sum.splits prod.splits)
      have "shift + 1 + (m_size v - (shift + 1)) \<le> m_size v" using True by simp
      from std_move_live[OF l this, of T shift] b have "live_upto (m_size v) b" by blast
      from live_prefix_with_buffer[OF w std_move_length(2)[OF b] this]
      show ?thesis using Inl p v' by (simp add: after_def)
    qed
  qed
qed

lemma live_Reserve:
  assumes "live_prefix v"
  shows "live_prefix (after (Reserve T n v))"
proof -
  have w: "wf v" and l: "live_upto (m_size v) (m_buffer (m_data v))"
    using assms by (simp_all add: live_prefix_def)
  show ?thesis
  proof (cases "Reserve T n v")
    case (Inr v')
    show ?thesis
    proof (cases "n \<le> Capacity v")
      case True
      then show ?thesis using assms by (simp add: Reserve_def after_def)
    next
      case False
      then have "Capacity v < n" by simp
      from Reserve_Inr[OF w this Inr] have "wf v'" "elems v' = elems v" by simp_all
      then show ?thesis using assms Inr by (simp add: live_prefix_elems after_def)
    qed
  next
    case (Inl p)
    then obtain e v' where p: "p = (e, v')" by (cases p) auto
    have "v' = v \<or> (\<exists>src d. uninitialized_move_n T (m_buffer (m_data v)) 0 (m_size v)
              (replicate n Raw) 0 = Inl (e, src, d) \<and> v' = with_buffer src v)"
      using Inl p
      by (auto simp: Reserve_def dest!: RawMemory_new_Inr split: if_splits sum.splits prod.splits)
    then show ?thesis
    proof
      assume "v' = v"
      then show ?thesis using assms Inl p by (simp add: after_def)
    next
      assume "\<exists>src d. uninitialized_move_n T (m_buffer (m_data v)) 0 (m_size v)
              (replicate n Raw) 0 = Inl (e, src, d) \<and> v' = with_buffer src v"
      then obtain src d where
        m: "uninitialized_move_n T (m_buffer (m_data v)) 0 (m_size v) (replicate n Raw) 0 = Inl (e, src, d)"
        and v': "v' = with_buffer src v" by blast
      have "live_upto (m_size v) src" using uninitialized_move_n_src_live[OF l, of 0 "m_size v" T] m by auto
      moreover have "length src = length (m_buffer (m_data v))"
        using uninitialized_move_n_length_Inl[OF m] by simp
      ultimately show ?thesis using live_prefix_with_buffer[OF w] Inl p v' by (simp add: after_def)
    qed
  qed
qed

lemma Emplace_try_live:
  assumes "wf v" "live_upto (m_size v) (m_buffer (m_data v))" "index \<le> m_size v" "m_size v < Capacity v"
  shows "live_upto (m_size v) (m_buffer (m_data (after (Emplace_try T index ctor v))))"
proof (cases "index = m_size v")
  case True
  then show ?thesis using assms(2)
    by (auto simp: Emplace_try_def after_def Let_def with_buffer_fields live_upto_update
        split: option.splits)
next
  case False
  let ?buf = "m_buffer (m_data v)" and ?n = "m_size v"
  have lt: "index < ?n" using False assms(3) by simp
  show ?thesis
  proof (cases ctor)
    case None
    then show ?thesis using False assms(2) by (simp add: Emplace_try_def after_def Let_def)
  next
    case (Some x)
    show ?thesis
    proof (cases "move_construct T (slot_at ?buf (?n - 1))")
      case (Inl e)
      then show ?thesis using False Some assms(2) by (simp add: Emplace_try_def after_def Let_def)
    next
      case (Inr p)
      then obtain s t where p: "p = (s, t)" by (cases p) auto
      have "slot_at ?buf (?n - 1) \<noteq> Raw" using live_upto_slot[OF assms(2)] lt by simp
      then have "t \<noteq> Raw" using move_construct_live[OF Inr[unfolded p]] by simp
      then have l1: "live_upto ?n (?buf[?n - 1 := t, ?n := s])"
        using live_upto_update[OF live_upto_update[OF assms(2)]] by simp
      have le: "index + (?n - 1 - index) \<le> ?n" using lt by simp
      note M = move_backward_live[OF l1 le, of T ?n]
      show ?thesis
      proof (cases "move_backward T index (?n - 1 - index) ?n (?buf[?n - 1 := t, ?n := s])")
        case (Inl q)
        then obtain e b where q: "q = (e, b)" by (cases q) auto
        then have "live_upto ?n b" using M Inl by blast
        then show ?thesis using False Some Inr p Inl q
          by (simp add: Emplace_try_def after_def Let_def with_buffer_fields)
      next
        case b: (Inr b)
        then have lb: "live_upto ?n b" using M by blast
        show ?thesis
        proof (cases "move_assign T (Live x)")
          case (Inl e)
          then show ?thesis using False Some Inr p b lb
            by (simp add: Emplace_try_def after_def Let_def with_buffer_fields)
        next
          case r: (Inr r)
          then obtain u w where r': "r = (u, w)" by (cases r) auto
          have "u = Live x" using move_assign_Inr[OF r[unfolded r']] .
          then have "live_upto ?n (b[index := u])" using live_upto_update[OF lb] by simp
          then show ?thesis using False Some Inr p b r r'
            by (simp add: Emplace_try_def after_def Let_def with_buffer_fields)
        qed
      qed
    qed
  qed
qed

lemma live_Emplace:
  assumes "live_prefix v"
  shows "live_prefix (after (Emplace T index ctor v))"
proof -
  have w: "wf v" and l: "live_upto (m_size v) (m_buffer (m_data v))"
    using assms by (simp_all add: live_prefix_def)
  let ?buf = "m_buffer (m_data v)"
  show ?thesis
  proof (cases "Emplace T index ctor v")
    case (Inr v')
    from Emplace_Inr[OF w Inr] obtain x where "wf v'"
      "elems v' = take index (elems v) @ Live x # drop index (elems v)" by blast
    moreover have "Raw \<notin> set (elems v)" using assms by (simp add: live_prefix_elems)
    ultimately have "live_prefix v'"
      by (auto simp: live_prefix_elems dest: in_set_takeD in_set_dropD)
    then show ?thesis using Inr by (simp add: after_def)
  next
    case (Inl p)
    then obtain e v' where p: "p = (e, v')" by (cases p) auto
    have wv': "wf v'" using wf_Emplace[OF w, of T index ctor] Inl p by (simp add: after_def)
    consider "\<not> index \<le> m_size v" | "index \<le> m_size v" "m_size v < Capacity v"
      | "index \<le> m_size v" "\<not> m_size v < Capacity v" by blast
    then have "m_size v' = m_size v \<and> live_upto (m_size v) (m_buffer (m_data v'))"
    proof cases
      case 1
      then show ?thesis using Inl p l by (simp add: Emplace_def)
    next
      case 2
      from Inl p 2 obtain v1 where t: "Emplace_try T index ctor v = Inl (e, v1)"
        and v': "v' = Emplace_catch v1"
        by (auto simp: Emplace_def split: sum.splits prod.splits)
      have "after (Emplace_try T index ctor v) = v1" using t by (simp add: after_def)
      then show ?thesis
        using Emplace_try_live[OF w l 2, of T ctor] Emplace_try_shape[of T index ctor v] v'
        by (simp add: Emplace_catch_def)
    next
      case 3
      define c where "c = (if m_size v = 0 then 1 else m_size v * 2)"
      show ?thesis
      proof (cases "RawMemory_new T c")
        case nl: (Inl a)
        then have "v' = v" using Inl p 3 by (simp add: Emplace_def c_def)
        then show ?thesis using l by simp
      next
        case (Inr nd)
        show ?thesis
        proof (cases ctor)
          case None
          then have "v' = v" using Inl p 3 Inr by (simp add: Emplace_def c_def)
          then show ?thesis using l by simp
        next
          case (Some x)
          let ?nb = "(m_buffer nd)[index := Live x]"
          show ?thesis
          proof (cases "\<not> nothrow_move_constructible T \<and> copy_constructible T")
            case True
            have "v' = v" using Inl p 3 Inr Some True
              by (auto simp: Emplace_def Let_def c_def split: sum.splits prod.splits)
            then show ?thesis using l by simp
          next
            case nc: False
            have E: "Emplace T index ctor v =
              (case uninitialized_move_n T ?buf 0 index ?nb 0 of
                 Inl (e, src, _) \<Rightarrow> Inl (e, with_buffer src v)
               | Inr (src1, b1) \<Rightarrow>
                   (case uninitialized_move_n T src1 index (m_size v - index) b1 (index + 1) of
                      Inl (e, src, _) \<Rightarrow> Inl (e, with_buffer src v)
                    | Inr (src2, b2) \<Rightarrow>
                        Inr ((adopt src2 (nd\<lparr>m_buffer := b2\<rparr>) v)\<lparr>m_size := m_size v + 1\<rparr>)))"
              using 3 Inr Some nc by (auto simp: Emplace_def Let_def c_def)
            have i0: "0 + index \<le> m_size v" using 3 by simp
            have i1: "index + (m_size v - index) \<le> m_size v" using 3 by simp
            show ?thesis
            proof (cases "uninitialized_move_n T ?buf 0 index ?nb 0")
              case f: (Inl q)
              then obtain e' src d where q: "q = (e', src, d)" by (cases q) auto
              have "live_upto (m_size v) src"
                using uninitialized_move_n_src_live[OF l i0, of T ?nb 0 src d e'] f q by simp
              moreover have "v' = with_buffer src v" using E Inl p f q by simp
              ultimately show ?thesis by (simp add: with_buffer_fields)
            next
              case r1: (Inr r1)
              then obtain src1 b1 where r1': "r1 = (src1, b1)" by (cases r1) auto
              have l1: "live_upto (m_size v) src1"
                using uninitialized_move_n_src_live[OF l i0, of T ?nb 0 src1 b1] r1 r1' by simp
              show ?thesis
              proof (cases "uninitialized_move_n T src1 index (m_size v - index) b1 (index + 1)")
                case f: (Inl q)
                then obtain e' src d where q: "q = (e', src, d)" by (cases q) auto
                have "live_upto (m_size v) src"
                  using uninitialized_move_n_src_live[OF l1 i1, of T b1 "index + 1" src d e'] f q by simp
                moreover have "v' = with_buffer src v" using E Inl p r1 r1' f q by simp
                ultimately show ?thesis by (simp add: with_buffer_fields)
              next
                case (Inr r2)
                then have False using E Inl r1 r1' by (simp split: prod.splits)
                then show ?thesis ..
              qed
            qed
          qed
        qed
      qed
    qed
    then show ?thesis using wv' Inl p by (simp add: live_prefix_def after_def)
  qed
qed

lemma EmplaceBack_Inr:
  assumes "wf v" "EmplaceBack T ctor v = Inr v'"
  shows "\<exists>x. ctor = Some x \<and> m_size v' = Suc (m_size v) \<and> wf v' \<and> elems v' = elems v @ [Live x]"
proof -
  let ?buf = "m_buffer (m_data v)" and ?n = "m_size v"
  have len: "length ?buf = m_capacity (m_data v)" "?n \<le> length ?buf"
    using assms(1) by (auto simp: wf_def)
  have wv': "wf v'" using wf_EmplaceBack[OF assms(1), of T ctor] assms(2) by (simp add: after_def)
  from assms(2) obtain x where x: "ctor = Some x"
    by (auto simp: EmplaceBack_def dest!: RawMemory_new_Inr split: if_splits option.splits sum.splits)
  have "m_size v' = Suc ?n \<and> elems v' = elems v @ [Live x]"
  proof (cases "?n \<noteq> Capacity v")
    case True
    then have v': "v' = (with_buffer (?buf[?n := Live x]) v)\<lparr>m_size := ?n + 1\<rparr>"
      using assms(2) x by (auto simp: EmplaceBack_def split: if_splits)
    have "?n < length ?buf" using True len by (simp add: Capacity_def)
    then have "take (Suc ?n) (?buf[?n := Live x]) = take ?n ?buf @ [Live x]"
      by (simp add: take_Suc_conv_app_nth)
    then show ?thesis by (simp add: v' elems_def with_buffer_def)
  next
    case False
    define c where "c = (if ?n = 0 then 1 else ?n * 2)"
    have c: "?n < c" by (simp add: c_def)
    from assms(2) False obtain nd where nd: "RawMemory_new T c = Inr nd"
      by (auto simp: EmplaceBack_def c_def split: sum.splits)
    have nd_eq: "nd = \<lparr>m_buffer = replicate c Raw, m_capacity = c\<rparr>" using RawMemory_new_Inr[OF nd] .
    let ?nb = "(m_buffer nd)[?n := Live x]"
    have lnb: "length ?nb = c" "?nb ! ?n = Live x" using c by (simp_all add: nd_eq)
    have "\<exists>old b. v' = (adopt old (nd\<lparr>m_buffer := b\<rparr>) v)\<lparr>m_size := ?n + 1\<rparr> \<and> length b = c \<and>
            take ?n b = take ?n ?buf \<and> b ! ?n = Live x"
    proof (cases "\<not> nothrow_move_constructible T \<and> copy_constructible T")
      case True
      with assms(2) False nd x obtain b where
        b: "uninitialized_copy_n T ?buf 0 ?n ?nb 0 = Inr b" and
        v': "v' = (adopt ?buf (nd\<lparr>m_buffer := b\<rparr>) v)\<lparr>m_size := ?n + 1\<rparr>"
        by (auto simp: EmplaceBack_def Let_def c_def split: sum.splits prod.splits if_splits)
      have "length b = c" using uninitialized_copy_n_length[OF b] lnb by simp
      moreover have "take ?n b = take ?n ?buf"
        using uninitialized_copy_n_take[OF b] len lnb c by simp
      moreover have "b ! ?n = Live x" using uninitialized_copy_n_outside[OF b, of ?n] lnb by simp
      ultimately show ?thesis using v' by blast
    next
      case nc: False
      with assms(2) False nd x obtain src b where
        b: "uninitialized_move_n T ?buf 0 ?n ?nb 0 = Inr (src, b)" and
        v': "v' = (adopt src (nd\<lparr>m_buffer := b\<rparr>) v)\<lparr>m_size := ?n + 1\<rparr>"
        by (auto simp: EmplaceBack_def Let_def c_def split: sum.splits prod.splits if_splits)
      have "length b = c" using uninitialized_move_n_length[OF b] lnb by simp
      moreover have "take ?n b = take ?n ?buf"
        using uninitialized_move_n_take[OF b] len lnb c by simp
      moreover have "b ! ?n = Live x" using uninitialized_move_n_outside[OF b, of ?n] lnb by simp
      ultimately show ?thesis using v' by blast
    qed
    then obtain old b where v': "v' = (adopt old (nd\<lparr>m_buffer := b\<rparr>) v)\<lparr>m_size := ?n + 1\<rparr>"
      and lb: "length b = c" and t: "take ?n b = take ?n ?buf" and bn: "b ! ?n = Live x" by blast
    have "take (Suc ?n) b = take ?n b @ [b ! ?n]" using lb c by (simp add: take_Suc_conv_app_nth)
    then show ?thesis using t bn by (simp add: v' elems_def adopt_fields)
  qed
  then show ?thesis using x wv' by simp
qed

lemma live_EmplaceBack:
  assumes "live_prefix v"
  shows "live_prefix (after (EmplaceBack T ctor v))"
proof -
  have w: "wf v" and l: "live_upto (m_size v) (m_buffer (m_data v))"
    using assms by (simp_all add: live_prefix_def)
  let ?buf = "m_buffer (m_data v)"
  show ?thesis
  proof (cases "EmplaceBack T ctor v")
    case (Inr v')
    from EmplaceBack_Inr[OF w Inr] obtain x where "wf v'" "elems v' = elems v @ [Live x]" by blast
    moreover have "Raw \<notin> set (elems v)" using assms by (simp add: live_prefix_elems)
    ultimately have "live_prefix v'" by (auto simp: live_prefix_elems)
    then show ?thesis using Inr by (simp add: after_def)
  next
    case (Inl p)
    then obtain e v' where p: "p = (e, v')" by (cases p) auto
    have "v' = v \<or> (\<exists>nb src d. uninitialized_move_n T ?buf 0 (m_size v) nb 0 = Inl (e, src, d) \<and>
              v' = with_buffer src v)"
      using Inl p
      by (auto simp: EmplaceBack_def Let_def split: if_splits sum.splits prod.splits option.splits)
    then show ?thesis
    proof (elim disjE exE conjE)
      assume "v' = v"
      then show ?thesis using assms Inl p by (simp add: after_def)
    next
      fix nb src d
      assume m: "uninitialized_move_n T ?buf 0 (m_size v) nb 0 = Inl (e, src, d)"
        and v': "v' = with_buffer src v"
      have "live_upto (m_size v) src"
        using uninitialized_move_n_src_live[OF l, of 0 "m_size v" T nb 0 src d e] m by simp
      moreover have "length src = length ?buf" using uninitialized_move_n_length_Inl[OF m] by simp
      ultimately show ?thesis using live_prefix_with_buffer[OF w] Inl p v' by (simp add: after_def)
    qed
  qed
qed

lemma destroy_own_below:
  "m < i \<Longrightarrow> m_buffer (m_data (destroy_own i n v)) ! m = m_buffer (m_data v) ! m"
  using destroy_n_below[of m i n "(m_buffer (m_data v), m_misuse v)"]
  by (auto simp: destroy_own_def split: prod.splits)

lemma live_Resize:
  assumes "live_prefix v"
  shows "live_prefix (after (Resize T n v))"
proof -
  have w: "wf v" and l: "live_upto (m_size v) (m_buffer (m_data v))"
    using assms by (simp_all add: live_prefix_def)
  have wr: "wf (after (Resize T n v))" using wf_Resize[OF w] .
  consider "n = m_size v" | "n < m_size v" | "m_size v < n" by arith
  then show ?thesis
  proof cases
    case 1
    then show ?thesis using assms by (simp add: Resize_def after_def)
  next
    case 2
    then have a: "after (Resize T n v) = (destroy_own n (m_size v - n) v)\<lparr>m_size := n\<rparr>"
      by (simp add: Resize_def after_def)
    have "live_upto n (m_buffer (m_data (destroy_own n (m_size v - n) v)))"
      using l 2 by (auto simp: live_upto_def destroy_own_below destroy_own_length)
    then show ?thesis using wr a by (simp add: live_prefix_def)
  next
    case 3
    show ?thesis
    proof (cases "Reserve T n v")
      case (Inl r)
      then have "after (Resize T n v) = after (Reserve T n v)" using 3 by (simp add: Resize_def)
      then show ?thesis using live_Reserve[OF assms, of T n] by simp
    next
      case (Inr v1)
      have l1: "live_prefix v1" using live_Reserve[OF assms, of T n] Inr by (simp add: after_def)
      note f = Reserve_Inr_wf[OF w Inr]
      have len1: "length (m_buffer (m_data v1)) = m_capacity (m_data v1)" using f by (simp add: wf_def)
      let ?u = "uninitialized_value_construct_n T (m_size v1) (n - m_size v1) (m_buffer (m_data v1))"
      show ?thesis
      proof (cases ?u)
        case (Inl q)
        then obtain e b where u: "?u = Inl (e, b)" by (cases q) simp
        then have a: "after (Resize T n v) = with_buffer b v1" using 3 Inr by (simp add: Resize_def after_def)
        have "live_upto (m_size v1) b"
          using l1 uninitialized_value_construct_n_below(2)[OF u] uninitialized_value_construct_n_length(2)[OF u]
          by (simp add: live_prefix_def live_upto_def)
        then show ?thesis using wr a by (simp add: live_prefix_def with_buffer_fields)
      next
        case b: (Inr b)
        then have a: "after (Resize T n v) = (with_buffer b v1)\<lparr>m_size := n\<rparr>"
          using 3 Inr by (simp add: Resize_def after_def)
        have lb: "length b = length (m_buffer (m_data v1))"
          using uninitialized_value_construct_n_length(1)[OF b] .
        have "b ! m \<noteq> Raw" if "m < n" for m
        proof (cases "m < m_size v1")
          case True
          then show ?thesis using l1 uninitialized_value_construct_n_below(1)[OF b True]
            by (simp add: live_prefix_def live_upto_def)
        next
          case False
          then show ?thesis
            using uninitialized_value_construct_n_inside[OF b, of m] that f len1 by simp
        qed
        then have "live_upto n b" using f lb len1 by (simp add: live_upto_def)
        then show ?thesis using wr a by (simp add: live_prefix_def with_buffer_fields)
      qed
    qed
  qed
qed

lemma live_Vector_default: "live_prefix Vector_default"
  by (simp add: live_prefix_def wf_def live_upto_def Vector_default_def RawMemory_default_def)

lemma live_Vector_copy:
  assumes "live_prefix other" "Vector_copy T other = Inr c"
  shows "live_prefix c"
proof -
  have "m_size other \<le> length (m_buffer (m_data other))" using assms(1) by (simp add: live_prefix_def wf_def)
  from Vector_copy_Inr[OF this assms(2)] show ?thesis using assms(1) by (simp add: live_prefix_elems)
qed

lemma live_Vector_sized:
  assumes "Vector_sized T n = Inr c"
  shows "live_prefix c"
proof -
  from assms obtain nd b where nd: "RawMemory_new T n = Inr nd"
    and b: "uninitialized_value_construct_n T 0 n (m_buffer nd) = Inr b"
    and c: "c = \<lparr>m_data = nd\<lparr>m_buffer := b\<rparr>, m_size = n, m_misuse = []\<rparr>"
    by (auto simp: Vector_sized_def split: sum.splits prod.splits)
  have nd_eq: "nd = \<lparr>m_buffer = replicate n Raw, m_capacity = n\<rparr>" using RawMemory_new_Inr[OF nd] .
  have lb: "length b = n" using uninitialized_value_construct_n_length(1)[OF b] by (simp add: nd_eq)
  have "b ! m \<noteq> Raw" if "m < n" for m
    using uninitialized_value_construct_n_inside[OF b, of m] that by (simp add: nd_eq)
  then show ?thesis using lb wf_Vector_sized[OF assms] by (simp add: live_prefix_def live_upto_def c)
qed

lemma live_Swap:
  "live_prefix v \<Longrightarrow> live_prefix other \<Longrightarrow>
     live_prefix (fst (Swap v other)) \<and> live_prefix (snd (Swap v other))"
  by (simp add: live_prefix_def wf_def Swap_def RawMemory_Swap_def)

lemma live_Vector_move:
  "live_prefix other \<Longrightarrow> live_prefix (fst (Vector_move other)) \<and> live_prefix (snd (Vector_move other))"
  using live_Swap[OF live_Vector_default] by (simp add: Vector_move_def)

lemma live_assign_copy_body:
  assumes "live_prefix v" "live_prefix rhs"
  shows "live_prefix (after (assign_copy_body T v rhs))"
proof -
  have w: "wf v" and l: "live_upto (m_size v) (m_buffer (m_data v))"
    using assms(1) by (simp_all add: live_prefix_def)
  have lr: "live_upto (m_size rhs) (m_buffer (m_data rhs))" using assms(2) by (simp add: live_prefix_def)
  have src: "slot_at (m_buffer (m_data rhs)) m \<noteq> Raw" if "m < m_size rhs" for m
    using live_upto_slot[OF lr that] .
  have wa: "wf (after (assign_copy_body T v rhs))" using wf_assign_copy_body[OF w] .
  let ?buf = "m_buffer (m_data v)" and ?rbuf = "m_buffer (m_data rhs)"
  have len: "length ?buf = m_capacity (m_data v)" using w by (simp add: wf_def)
  consider "Capacity v < m_size rhs" | "\<not> Capacity v < m_size rhs" "m_size rhs < m_size v"
    | "\<not> Capacity v < m_size rhs" "\<not> m_size rhs < m_size v" by blast
  then show ?thesis
  proof cases
    case 1
    show ?thesis
    proof (cases "Vector_copy T rhs")
      case (Inl e)
      then show ?thesis using 1 assms(1) by (simp add: assign_copy_body_def after_def)
    next
      case (Inr c)
      from live_Swap[OF assms(1) live_Vector_copy[OF assms(2) Inr]]
      show ?thesis using 1 Inr by (simp add: assign_copy_body_def after_def)
    qed
  next
    case 2
    have s: "\<forall>m. 0 \<le> m \<and> m < 0 + m_size rhs \<longrightarrow> slot_at ?rbuf m \<noteq> Raw" using src by simp
    note C = copy_n_live[OF l s, of T 0]
    show ?thesis
    proof (cases "copy_n T ?rbuf 0 (m_size rhs) ?buf 0")
      case (Inl q)
      then obtain e b where q: "q = (e, b)" by (cases q) auto
      have "live_upto (m_size v) b" using C Inl q by blast
      moreover have "after (assign_copy_body T v rhs) = with_buffer b v"
        using 2 Inl q by (simp add: assign_copy_body_def after_def)
      ultimately show ?thesis using wa by (simp add: live_prefix_def with_buffer_fields)
    next
      case (Inr b)
      have lb: "live_upto (m_size v) b" using C Inr by blast
      have a: "after (assign_copy_body T v rhs) =
                 (destroy_own (m_size rhs) (m_size v - m_size rhs) (with_buffer b v))\<lparr>m_size := m_size rhs\<rparr>"
        using 2 Inr by (simp add: assign_copy_body_def after_def)
      have "live_upto (m_size rhs)
              (m_buffer (m_data (destroy_own (m_size rhs) (m_size v - m_size rhs) (with_buffer b v))))"
        using lb 2 by (auto simp: live_upto_def destroy_own_below destroy_own_length with_buffer_fields)
      then show ?thesis using wa a by (simp add: live_prefix_def)
    qed
  next
    case 3
    then have le: "m_size v \<le> m_size rhs" "m_size rhs \<le> length ?buf" using len by (simp_all add: Capacity_def)
    have s: "\<forall>m. 0 \<le> m \<and> m < 0 + m_size v \<longrightarrow> slot_at ?rbuf m \<noteq> Raw" using src le by simp
    note C = copy_n_live[OF l s, of T 0]
    show ?thesis
    proof (cases "copy_n T ?rbuf 0 (m_size v) ?buf 0")
      case (Inl q)
      then obtain e b where q: "q = (e, b)" by (cases q) auto
      have "live_upto (m_size v) b" using C Inl q by blast
      moreover have "after (assign_copy_body T v rhs) = with_buffer b v"
        using 3 Inl q by (simp add: assign_copy_body_def after_def)
      ultimately show ?thesis using wa by (simp add: live_prefix_def with_buffer_fields)
    next
      case b: (Inr b)
      have lb: "live_upto (m_size v) b" using C b by blast
      have lenb: "length b = length ?buf" using copy_n_length(1)[OF b] .
      let ?u = "uninitialized_copy_n T ?rbuf (m_size v) (m_size rhs - m_size v) b (m_size v)"
      show ?thesis
      proof (cases ?u)
        case (Inl q)
        then obtain e b' where q: "q = (e, b')" by (cases q) auto
        have u: "?u = Inl (e, b')" using Inl q by simp
        have "live_upto (m_size v) b'"
          using lb uninitialized_copy_n_below_Inl[OF u] uninitialized_copy_n_length_Inl[OF u]
          by (simp add: live_upto_def)
        moreover have "after (assign_copy_body T v rhs) = with_buffer b' v"
          using 3 b u by (simp add: assign_copy_body_def after_def)
        ultimately show ?thesis using wa by (simp add: live_prefix_def with_buffer_fields)
      next
        case (Inr b')
        have lenb': "length b' = length ?buf" using uninitialized_copy_n_length[OF Inr] lenb by simp
        have "b' ! m \<noteq> Raw" if "m < m_size rhs" for m
        proof (cases "m < m_size v")
          case True
          then show ?thesis using uninitialized_copy_n_outside[OF Inr, of m] lb by (simp add: live_upto_def)
        next
          case False
          then have "b' ! m = slot_at ?rbuf (m_size v + (m - m_size v))"
            using uninitialized_copy_n_inside[OF Inr, of m] that le lenb by simp
          then show ?thesis using src[OF that] False by simp
        qed
        then have "live_upto (m_size rhs) b'" using le lenb' by (simp add: live_upto_def)
        moreover have "after (assign_copy_body T v rhs) = (with_buffer b' v)\<lparr>m_size := m_size rhs\<rparr>"
          using 3 b Inr by (simp add: assign_copy_body_def after_def)
        ultimately show ?thesis using wa by (simp add: live_prefix_def with_buffer_fields)
      qed
    qed
  qed
qed

text \<open>
  So the state in which every slot below \<^verbatim>\<open>size_\<close> holds an object is an invariant of the
  container: the constructors establish it and every member function keeps it, whether it
  returns or throws. In such a state no operation reads a slot that holds no object.
\<close>

lemma live_prefix_invariant:
  assumes "live_prefix v"
  shows "live_prefix (PopBack v)"
    and "live_prefix (after (Erase T i v))"
    and "live_prefix (after (Emplace T i ctor v))"
    and "live_prefix (after (EmplaceBack T ctor v))"
    and "live_prefix (after (Resize T n v))"
    and "live_prefix (after (Reserve T n v))"
    and "live_prefix rhs \<Longrightarrow> live_prefix (after (assign_copy_body T v rhs))"
    and "live_prefix other \<Longrightarrow> live_prefix (fst (Swap v other)) \<and> live_prefix (snd (Swap v other))"
    and "live_prefix (fst (Vector_move v)) \<and> live_prefix (snd (Vector_move v))"
    and "Vector_copy T v = Inr c \<Longrightarrow> live_prefix c"
proof -
  show "live_prefix (PopBack v)" by (rule live_PopBack[OF assms])
  show "live_prefix (after (Erase T i v))" by (rule live_Erase[OF assms])
  show "live_prefix (after (Emplace T i ctor v))" by (rule live_Emplace[OF assms])
  show "live_prefix (after (EmplaceBack T ctor v))" by (rule live_EmplaceBack[OF assms])
  show "live_prefix (after (Resize T n v))" by (rule live_Resize[OF assms])
  show "live_prefix (after (Reserve T n v))" by (rule live_Reserve[OF assms])
  show "live_prefix rhs \<Longrightarrow> live_prefix (after (assign_copy_body T v rhs))"
    by (rule live_assign_copy_body[OF assms])
  show "live_prefix other \<Longrightarrow> live_prefix (fst (Swap v other)) \<and> live_prefix (snd (Swap v other))"
    by (rule live_Swap[OF assms])
  show "live_prefix (fst (Vector_move v)) \<and> live_prefix (snd (Vector_move v))"
    by (rule live_Vector_move[OF assms])
  show "Vector_copy T v = Inr c \<Longrightarrow> live_prefix c" by (rule live_Vector_copy[OF assms])
qed

lemma live_assign_copy:
  assumes "\<forall>a. live_prefix (s a)"
  shows "case assign_copy T this rhs s of
           Inl (e, s') \<Rightarrow> \<forall>a. live_prefix (s' a)
         | Inr s' \<Rightarrow> \<forall>a. live_prefix (s' a)"
proof -
  have "live_prefix (after (assign_copy_body T (s this) (s rhs)))"
    using assms live_assign_copy_body by blast
  then show ?thesis using assms
    by (auto simp: assign_copy_def after_def split: sum.splits prod.splits)
qed

lemma live_assign_move:
  assumes "\<forall>a. live_prefix (s a)"
  shows "live_prefix (assign_move this rhs s a)"
  using assms live_Swap[of "s this" "s rhs"]
  by (auto simp: assign_move_def split: prod.splits)

section \<open>Removal\<close>

text \<open>
  What \<^verbatim>\<open>PopBack\<close> does in general: an empty vector is returned as it is; otherwise the
  size drops by one, the capacity stays, and the slot of the last element is left as it was.
\<close>

lemma PopBack_general:
  "m_size v = 0 \<Longrightarrow> PopBack v = v"
  "m_size (PopBack v) = m_size v - 1"
  "Capacity (PopBack v) = Capacity v"
  "0 < m_size v \<Longrightarrow>
     m_buffer (m_data (PopBack v)) ! (m_size v - 1) = m_buffer (m_data v) ! (m_size v - 1)"
  using PopBack_below[of "m_size v - 1" v]
  by (simp_all add: PopBack_fields Capacity_def) (simp add: PopBack_def)

text \<open>
  C1. \<^verbatim>\<open>PopBack\<close> on the vector holding the single element 7 in a buffer of one slot: the
  size drops to 0 and the capacity stays 1, but the destructor is run on slot 1, past the
  buffer, and the element in slot 0, the last live one, is not destroyed.
\<close>

theorem PopBack_destroys_slot_past_last:
  "PopBack \<lparr>m_data = \<lparr>m_buffer = [Live (7::int)], m_capacity = 1\<rparr>, m_size = 1, m_misuse = []\<rparr>
     = \<lparr>m_data = \<lparr>m_buffer = [Live 7], m_capacity = 1\<rparr>, m_size = 0, m_misuse = [DestroyAt 1]\<rparr>"
  by (simp add: PopBack_def destroy_own_def destroy_at_def)

section \<open>Exceptions\<close>

text \<open>
  C2. When the vector is full and the constructor of the new element throws, \<^verbatim>\<open>EmplaceBack\<close>
  lets an exception out and leaves the vector exactly as it was: same size, same capacity,
  same buffer. The exception is that of the constructor, unless the allocation of the new
  block, which comes first, already failed.
\<close>

theorem EmplaceBack_ctor_throws_unchanged:
  assumes "m_size v = Capacity v"
  shows "EmplaceBack T None v =
           Inl (if alloc_fails T (max 1 (2 * m_size v)) then BadAlloc else ElemThrow, v)"
  using assms
  by (auto simp: EmplaceBack_def RawMemory_new_def Allocate_def max_def mult.commute split: sum.splits)

theorem EmplaceBack_ctor_throws_unchanged_witness:
  "m_size V12 = Capacity V12 \<and> EmplaceBack T_int None V12 = Inl (ElemThrow, V12)"
proof -
  have h: "m_size V12 = Capacity V12" by (simp add: V12_def Capacity_def)
  show ?thesis using h EmplaceBack_ctor_throws_unchanged[OF h, of T_int]
    by (simp add: T_int_def)
qed

text \<open>
  C3. \<^verbatim>\<open>Insert\<close> of 99 at index 0 into the vector 1, -2, 3 with capacity 5, for an element
  type whose move assignment throws on a negative value. The trailing slot 3 is constructed
  from the last element, then the backward shift throws on -2. The handler calls
  \<^verbatim>\<open>operator delete\<close> on the address of slot 3 and rethrows: the exception leaves the call,
  and the element constructed in slot 3 is still there, its destructor not run.
\<close>

theorem Emplace_handler_deletes_instead_of_destroying:
  "Insert T_fragile 0 99
     \<lparr>m_data = \<lparr>m_buffer = [Live 1, Live (- 2), Live 3, Raw, Raw], m_capacity = 5\<rparr>,
        m_size = 3, m_misuse = []\<rparr>
   = Inl (ElemThrow,
     \<lparr>m_data = \<lparr>m_buffer = [Live 1, Live (- 2), Live 0, Live 3, Raw], m_capacity = 5\<rparr>,
        m_size = 3, m_misuse = [OperatorDelete 3]\<rparr>)"
  by code_simp

section \<open>Capacity\<close>





section \<open>Assignment\<close>

text \<open>
  C6. Copy assignment between two distinct vectors when the source has more elements than
  the destination has capacity. If an exception leaves the call, the whole store, and so the
  destination, is what it was before. If the call returns, the destination has been swapped
  with a complete copy of the source made by the copy constructor, it holds the source's
  elements, and the source is untouched.
\<close>

theorem assign_copy_grow_strong:
  assumes "this \<noteq> rhs" "Capacity (s this) < m_size (s rhs)" "wf (s rhs)"
  shows "case assign_copy T this rhs s of
           Inl (e, s') \<Rightarrow> s' = s
         | Inr s' \<Rightarrow> (\<exists>c. Vector_copy T (s rhs) = Inr c \<and> s' = s(this := fst (Swap (s this) c))) \<and>
                       Size (s' this) = Size (s rhs) \<and> elems (s' this) = elems (s rhs) \<and>
                       s' rhs = s rhs"
proof (cases "Vector_copy T (s rhs)")
  case (Inl e)
  then show ?thesis using assms by (simp add: assign_copy_def assign_copy_body_def)
next
  case (Inr c)
  have "m_size (s rhs) \<le> length (m_buffer (m_data (s rhs)))" using assms(3) by (simp add: wf_def)
  from Vector_copy_Inr[OF this Inr] have c: "m_size c = m_size (s rhs)" "elems c = elems (s rhs)"
    by simp_all
  have "elems (fst (Swap (s this) c)) = elems c" "m_size (fst (Swap (s this) c)) = m_size c"
    by (simp_all add: Swap_def RawMemory_Swap_def elems_def)
  then show ?thesis using assms Inr c
    by (simp add: assign_copy_def assign_copy_body_def Size_def)
qed

theorem assign_copy_grow_strong_witness:
  "(1::nat) \<noteq> 0 \<and> Capacity (two_vectors 1) < m_size (two_vectors 0) \<and> wf (two_vectors 0) \<and>
   assign_copy T_int 1 0 two_vectors = Inr (two_vectors(1 := V12)) \<and>
   elems ((two_vectors(1 := V12)) 1) = elems (two_vectors 0) \<and>
   Capacity (two_fragile_vectors 1) < m_size (two_fragile_vectors 0) \<and> wf (two_fragile_vectors 0) \<and>
   assign_copy T_fragile 1 0 two_fragile_vectors = Inl (ElemThrow, two_fragile_vectors)"
proof -
  have h1: "(1::nat) \<noteq> 0" by simp
  have h2: "Capacity (two_vectors 1) < m_size (two_vectors 0)"
    by (simp add: two_vectors_def V12_def Vector_default_def RawMemory_default_def Capacity_def)
  have h3: "wf (two_vectors 0)" by (simp add: two_vectors_def V12_def wf_def)
  have g2: "Capacity (two_fragile_vectors 1) < m_size (two_fragile_vectors 0)"
    by (simp add: two_fragile_vectors_def V1n2_def Vector_default_def RawMemory_default_def Capacity_def)
  have g3: "wf (two_fragile_vectors 0)" by (simp add: two_fragile_vectors_def V1n2_def wf_def)
  have a: "assign_copy_body T_int Vector_default V12 = Inr V12" by code_simp
  have b: "assign_copy T_int 1 0 two_vectors = Inr (two_vectors(1 := V12))"
    by (simp add: assign_copy_def two_vectors_def a)
  have c: "assign_copy_body T_fragile Vector_default V1n2 = Inl (ElemThrow, Vector_default)"
    by code_simp
  have d: "\<exists>s'. assign_copy T_fragile 1 0 two_fragile_vectors = Inl (ElemThrow, s')"
    by (simp add: assign_copy_def two_fragile_vectors_def c)
  from assign_copy_grow_strong[OF h1 h2 h3, of T_int] b
  have e: "elems ((two_vectors(1 := V12)) 1) = elems (two_vectors 0)" by simp
  from assign_copy_grow_strong[OF h1 g2 g3, of T_fragile] d
  have f: "assign_copy T_fragile 1 0 two_fragile_vectors = Inl (ElemThrow, two_fragile_vectors)"
    by auto
  show ?thesis using h1 h2 h3 g2 g3 b e f by blast
qed

text \<open>
  C10. Assigning a vector to itself, by copy or by move, changes nothing: the store, and so
  the size, the capacity and the elements of the vector, is the same after the call, and the
  copy assignment returns normally.
\<close>

theorem self_assignment_is_noop:
  "assign_copy T a a s = Inr s \<and> assign_move a a s = s"
  by (simp add: assign_copy_def assign_move_def)

section \<open>Insertion followed by removal\<close>



section \<open>The invariant on size and capacity\<close>




section \<open>Move construction\<close>

text \<open>
  C9. Move construction gives the new vector the storage, and with it the capacity and
  the elements, and the size of the source, and leaves the source with size 0, capacity 0
  and the empty block. It is a swap of the fields: no element operation is called, and the
  call has no exceptional result.
\<close>

theorem Vector_move_leaves_source_empty:
  "m_data (fst (Vector_move other)) = m_data other \<and>
   Size (fst (Vector_move other)) = Size other \<and>
   Capacity (fst (Vector_move other)) = Capacity other \<and>
   elems (fst (Vector_move other)) = elems other \<and>
   Size (snd (Vector_move other)) = 0 \<and>
   Capacity (snd (Vector_move other)) = 0 \<and>
   m_buffer (m_data (snd (Vector_move other))) = [] \<and>
   elems (snd (Vector_move other)) = []"
  by (simp add: Vector_move_def Swap_def RawMemory_Swap_def Vector_default_def RawMemory_default_def
      Size_def Capacity_def elems_def)

end
